theory Spec2Isabelle
  imports Main "HOL-Library.Word"
begin

section \<open>The request-dispatch core of the DNS server (package dnsserver, server.go)\<close>

text \<open>
  A shallow embedding of \<^verbatim>\<open>NewServer\<close>, \<^verbatim>\<open>Serve\<close>, \<^verbatim>\<open>ServePacket\<close>, \<^verbatim>\<open>Stop\<close> and
  \<^verbatim>\<open>ServeDNS\<close>. Plugins, filters and metadata collectors are opaque Go values; they are
  functions here, and each of them may panic, so each returns a sum whose left side is the
  panic. What \<^verbatim>\<open>ServeDNS\<close> itself does to the outside world (the responses it writes, the
  metrics it reports, the chain it invokes) is recorded as a list of events.
\<close>

subsection \<open>Data model\<close>

type_synonym rcode = int

datatype panic = Panic string

text \<open>The request context: the values \<^verbatim>\<open>context.WithValue\<close> stores under \<^verbatim>\<open>Key{}\<close> (the
  server, named by its address), \<^verbatim>\<open>LoopKey{}\<close>, \<^verbatim>\<open>ViewKey{}\<close>, and whatever the metadata
  collectors add.\<close>

record ctx =
  ServerKey :: "string option"
  LoopKey :: "int option"
  ViewKey :: "string option"
  metadata :: "(string \<times> string) list"

record question =
  Name_q :: string
  Qtype :: "16 word"
  Qclass :: "16 word"

text \<open>Of a \<^verbatim>\<open>dns.Msg\<close> the dispatcher reads the question section and, through
  \<^verbatim>\<open>edns.Version\<close>, the version of the OPT record when there is one.\<close>

record dns_msg =
  Question :: "question list"
  OptVersion :: "nat option"

definition ClassINET :: "16 word" where "ClassINET = 1"
definition TypeDS :: "16 word" where "TypeDS = 43"
definition RcodeFormatError :: rcode where "RcodeFormatError = 1"
definition RcodeServerFailure :: rcode where "RcodeServerFailure = 2"
definition RcodeNotImplemented :: rcode where "RcodeNotImplemented = 4"
definition RcodeRefused :: rcode where "RcodeRefused = 5"
definition RcodeBadVers :: rcode where "RcodeBadVers = 16"

text \<open>A \<^verbatim>\<open>plugin.Handler\<close>: its name, its \<^verbatim>\<open>ServeDNS\<close> (the returned error is dropped by
  every caller here), and the two optional capabilities the compiler probes with a type
  assertion: \<^verbatim>\<open>MetadataCollector\<close> (\<open>Collect_mc h = Some f\<close> when the handler has the
  method \<^verbatim>\<open>Collect\<close>) and \<^verbatim>\<open>trace.Trace\<close>.\<close>

record handler =
  Name :: string
  ServeDNS_h :: "ctx \<Rightarrow> dns_msg \<Rightarrow> panic + rcode"
  Collect_mc :: "(ctx \<Rightarrow> dns_msg \<Rightarrow> panic + ctx) option"
  isTrace :: bool

type_synonym FilterFunc = "ctx \<Rightarrow> dns_msg \<Rightarrow> panic + bool"

text \<open>The fields of \<^verbatim>\<open>Config\<close> that server.go reads and writes. A \<^verbatim>\<open>plugin.Plugin\<close> is
  a function from the next handler (nil for the innermost one) to a handler.\<close>

record config =
  Zone :: string
  Debug :: bool
  Stacktrace :: bool
  ReadTimeout :: int
  WriteTimeout :: int
  IdleTimeout :: int
  TsigSecret :: "string \<rightharpoonup> string"
  Plugin :: "(handler option \<Rightarrow> handler) list"
  FilterFuncs :: "FilterFunc list"
  ViewName :: string
  pluginChain :: "handler option"
  metaCollector :: "handler option"
  registry :: "string \<rightharpoonup> handler"

text \<open>The fields of the \<^verbatim>\<open>dns.Server\<close> values that \<^verbatim>\<open>Serve\<close> and \<^verbatim>\<open>ServePacket\<close> build.
  The handler closure (which seeds the context and calls \<^verbatim>\<open>ServeDNS\<close>) is \<open>seed_context\<close>
  below; the listener and the packet connection are named by a string.\<close>

record dns_Server =
  Net :: string
  Listener :: "string option"
  PacketConn :: "string option"
  srv_TsigSecret :: "string \<rightharpoonup> string"
  srv_MaxTCPQueries :: int
  srv_ReadTimeout :: int
  srv_WriteTimeout :: int
  srv_IdleTimeout :: "int option"

record server =
  Addr :: string
  servers :: "dns_Server option list"
  zones :: "string \<rightharpoonup> config list"
  dnsWg :: int
  graceTimeout :: int
  trace :: "handler option"
  debug :: bool
  stacktrace :: bool
  classChaos :: bool
  idleTimeout :: int
  readTimeout :: int
  writeTimeout :: int
  tsigSecret :: "string \<rightharpoonup> string"

definition Second :: int where "Second = 1000000000"

definition tcp :: nat where "tcp = 0"
definition udp :: nat where "udp = 1"
definition tcpMaxQueries :: int where "tcpMaxQueries = - 1"

definition EnableChaos :: "string set" where
  "EnableChaos = {''chaos'', ''forward'', ''proxy''}"

subsection \<open>NewServer\<close>

text \<open>Modelled from the spec: \<^verbatim>\<open>Config.registerHandler\<close> is not under src/; the spec says
  the compiler registers each link with the Config so that later phases can look it up.
  The link is stored under its name.\<close>

definition registerHandler :: "config \<Rightarrow> handler \<Rightarrow> config" where
  "registerHandler site h = site\<lparr>registry := (registry site)(Name h \<mapsto> h)\<rparr>"

text \<open>One round of the loop \<^verbatim>\<open>for i := len(site.Plugin) - 1; i >= 0; i--\<close>, on the plugin
  \<open>p = site.Plugin[i]\<close>. The state is the server, the site and \<^verbatim>\<open>stack\<close>.\<close>

definition compile_step ::
  "(handler option \<Rightarrow> handler) \<Rightarrow> server \<times> config \<times> handler option
     \<Rightarrow> server \<times> config \<times> handler option" where
  "compile_step p st =
     (case st of (s, site, stack) \<Rightarrow>
        let stack' = p stack;
            site1 = registerHandler site stack';
            site2 = (if Collect_mc stack' \<noteq> None
                     then site1\<lparr>metaCollector := Some stack'\<rparr> else site1);
            s1 = (if trace s = None \<and> Name stack' = ''trace''
                  then (if isTrace stack' then s\<lparr>trace := Some stack'\<rparr> else s)
                  else s);
            s2 = (if Name stack' \<in> EnableChaos then s1\<lparr>classChaos := True\<rparr> else s1)
        in (s2, site2, Some stack'))"

text \<open>The loop runs over the plugin list from its last element to its first: \<open>compile\<close>
  is called on the reversed list.\<close>

fun compile ::
  "(handler option \<Rightarrow> handler) list \<Rightarrow> server \<times> config \<times> handler option
     \<Rightarrow> server \<times> config \<times> handler option" where
  "compile [] st = st"
| "compile (p # ps) st = compile ps (compile_step p st)"

text \<open>The body of \<^verbatim>\<open>for _, site := range group\<close>, in three parts: \<open>site_settings\<close>
  (debug, stacktrace, timeouts, TSIG secrets), \<open>compile_site\<close> (the inner loop and
  \<^verbatim>\<open>site.pluginChain = stack\<close>) and the append to \<^verbatim>\<open>s.zones[site.Zone]\<close>. The Go code
  appends the pointer \<^verbatim>\<open>site\<close> first and writes \<^verbatim>\<open>site.metaCollector\<close> and
  \<^verbatim>\<open>site.pluginChain\<close> afterwards; the map holds the pointer, so it sees those writes. The
  model therefore appends the site as it is at the end of the round. Copying the TSIG
  secrets key by key is \<open>++\<close>: the keys of a Go map are distinct, so the order of the
  \<^verbatim>\<open>range\<close> does not matter. The global debug-log switch is not modelled.\<close>

definition compile_site :: "server \<Rightarrow> config \<Rightarrow> server \<times> config" where
  "compile_site s site =
     (case compile (rev (Plugin site)) (s, site, None) of
        (s', site', stack) \<Rightarrow> (s', site'\<lparr>pluginChain := stack\<rparr>))"

definition site_settings :: "server \<Rightarrow> config \<Rightarrow> server" where
  "site_settings s site =
     (let s1 = (if Debug site then s\<lparr>debug := True\<rparr> else s);
          s2 = s1\<lparr>stacktrace := Stacktrace site\<rparr>;
          s3 = (if ReadTimeout site \<noteq> 0 then s2\<lparr>readTimeout := ReadTimeout site\<rparr> else s2);
          s4 = (if WriteTimeout site \<noteq> 0 then s3\<lparr>writeTimeout := WriteTimeout site\<rparr> else s3);
          s5 = (if IdleTimeout site \<noteq> 0 then s4\<lparr>idleTimeout := IdleTimeout site\<rparr> else s4)
      in s5\<lparr>tsigSecret := tsigSecret s5 ++ TsigSecret site\<rparr>)"

definition add_site :: "server \<Rightarrow> config \<Rightarrow> server" where
  "add_site s site =
     (case compile_site (site_settings s site) site of
        (s', site') \<Rightarrow>
          s'\<lparr>zones := (zones s')(Zone site \<mapsto>
               (case zones s' (Zone site) of None \<Rightarrow> [] | Some z \<Rightarrow> z) @ [site'])\<rparr>)"

definition init_server :: "string \<Rightarrow> server" where
  "init_server addr =
     \<lparr>Addr = addr, servers = [None, None], zones = Map.empty, dnsWg = 1,
      graceTimeout = 5 * Second, trace = None, debug = False, stacktrace = False,
      classChaos = False, idleTimeout = 10 * Second, readTimeout = 3 * Second,
      writeTimeout = 5 * Second, tsigSecret = Map.empty\<rparr>"

definition NewServer :: "string \<Rightarrow> config list \<Rightarrow> server" where
  "NewServer addr sites = foldl add_site (init_server addr) sites"

subsection \<open>Serve, ServePacket and Stop\<close>

text \<open>\<^verbatim>\<open>Serve\<close> and \<^verbatim>\<open>ServePacket\<close> fill their slot of \<^verbatim>\<open>s.server\<close> under the mutex and then
  block in \<^verbatim>\<open>ActivateAndServe\<close>; the model is the write to the slot. The fields a
  \<^verbatim>\<open>dns.Server\<close> literal leaves out have Go's zero value.\<close>

definition seed_context :: "server \<Rightarrow> ctx" where
  "seed_context s = \<lparr>ServerKey = Some (Addr s), LoopKey = Some 0, ViewKey = None, metadata = []\<rparr>"

definition Serve :: "server \<Rightarrow> string \<Rightarrow> server" where
  "Serve s l = s\<lparr>servers := (servers s)[tcp := Some
     \<lparr>Net = ''tcp'', Listener = Some l, PacketConn = None, srv_TsigSecret = tsigSecret s,
      srv_MaxTCPQueries = tcpMaxQueries, srv_ReadTimeout = readTimeout s,
      srv_WriteTimeout = writeTimeout s, srv_IdleTimeout = Some (idleTimeout s)\<rparr>]\<rparr>"

definition ServePacket :: "server \<Rightarrow> string \<Rightarrow> server" where
  "ServePacket s p = s\<lparr>servers := (servers s)[udp := Some
     \<lparr>Net = ''udp'', Listener = None, PacketConn = Some p, srv_TsigSecret = tsigSecret s,
      srv_MaxTCPQueries = 0, srv_ReadTimeout = 0, srv_WriteTimeout = 0,
      srv_IdleTimeout = None\<rparr>]\<rparr>"

text \<open>The loop \<^verbatim>\<open>for _, s1 := range s.server\<close> of \<^verbatim>\<open>Stop\<close>, with the named result
  \<^verbatim>\<open>err\<close> as accumulator. \<open>Shutdown d\<close> is what \<^verbatim>\<open>d.Shutdown()\<close> returns: \<open>None\<close> for nil,
  \<open>Some e\<close> for the error \<open>e\<close>.\<close>

fun shutdown_loop ::
  "(dns_Server \<Rightarrow> string option) \<Rightarrow> dns_Server option list \<Rightarrow> string option \<Rightarrow> string option" where
  "shutdown_loop Shutdown [] err = err"
| "shutdown_loop Shutdown (s1 # rest) err =
     shutdown_loop Shutdown rest (case s1 of None \<Rightarrow> err | Some d \<Rightarrow> Shutdown d)"

text \<open>\<^verbatim>\<open>Stop\<close>: off Windows one \<^verbatim>\<open>dnsWg.Done()\<close>, then the shutdown loop. The wait on the
  group and on the timer is not modelled. The model is of a first \<^verbatim>\<open>Stop\<close>, on a server
  that still has the credit of \<^verbatim>\<open>NewServer\<close>: a \<^verbatim>\<open>Done\<close> on a spent credit panics in
  Go, where the counter here just goes below zero.\<close>

definition Stop ::
  "string \<Rightarrow> (dns_Server \<Rightarrow> string option) \<Rightarrow> server \<Rightarrow> server \<times> string option" where
  "Stop goos Shutdown s =
     (let s' = (if goos \<noteq> ''windows'' then s\<lparr>dnsWg := dnsWg s - 1\<rparr> else s)
      in (s', shutdown_loop Shutdown (servers s') None))"

subsection \<open>ServeDNS\<close>

text \<open>The calls \<^verbatim>\<open>ServeDNS\<close> makes, in order: \<^verbatim>\<open>errorAndMetricsFunc\<close> (a report to the
  metrics and one response with the code), \<^verbatim>\<open>errorFunc\<close> (one response with the code),
  \<^verbatim>\<open>w.WriteMsg\<close> of the EDNS reply, the log line of the recovery (with or without the
  stack), \<^verbatim>\<open>vars.Panic.Inc()\<close>, and the call of a Config's chain with a context.\<close>

datatype event =
    ErrorAndMetrics rcode
  | ErrorFunc rcode
  | WriteMsg rcode
  | LogPanic bool
  | PanicInc
  | ChainServeDNS config ctx

text \<open>How a piece of \<^verbatim>\<open>ServeDNS\<close> ends: the events so far, and the panic when it ended in
  one.\<close>

type_synonym exit = "event list \<times> panic option"

text \<open>The walk's variables: \<^verbatim>\<open>ctx\<close> and \<^verbatim>\<open>dshandler\<close>.\<close>

type_synonym mux_state = "ctx \<times> config option"

definition errorAndMetricsFunc :: "rcode \<Rightarrow> event list" where
  "errorAndMetricsFunc rc = [ErrorAndMetrics rc]"

definition errorFunc :: "rcode \<Rightarrow> event list" where
  "errorFunc rc = [ErrorFunc rc]"

text \<open>Modelled from the spec: \<^verbatim>\<open>plugin.ClientWrite\<close> is not under src/; the spec says it
  tells whether the code means that the chain already wrote a response. The four codes
  are those of the upstream plugin package.\<close>

definition ClientWrite :: "rcode \<Rightarrow> bool" where
  "ClientWrite rc \<longleftrightarrow>
     \<not> (rc = RcodeServerFailure \<or> rc = RcodeRefused \<or> rc = RcodeFormatError
        \<or> rc = RcodeNotImplemented)"

text \<open>Modelled from the spec: \<^verbatim>\<open>edns.Version\<close> is not under src/; the spec says a request
  that declares an unsupported EDNS version gets the version-negotiation response. The
  result is the code of that response, or \<open>None\<close> when the error is nil. Version 0 is the
  supported one.\<close>

definition edns_Version :: "dns_msg \<Rightarrow> rcode option" where
  "edns_Version r =
     (case OptVersion r of None \<Rightarrow> None
      | Some v \<Rightarrow> if v = 0 then None else Some RcodeBadVers)"

text \<open>\<^verbatim>\<open>strings.ToLower\<close> on the bytes of an ASCII string. The names the DNS library
  unpacks are printable ASCII (any other byte of the wire is written as a decimal
  escape).\<close>

definition toLower_char :: "char \<Rightarrow> char" where
  "toLower_char c =
     (let n = (of_char c :: nat) in if 65 \<le> n \<and> n \<le> 90 then char_of (n + 32) else c)"

definition ToLower :: "string \<Rightarrow> string" where
  "ToLower s = map toLower_char s"

text \<open>\<^verbatim>\<open>dns.NextLabel\<close> of the DNS library (miekg/dns, labels.go; not part of this
  repository): the index where the next label of \<open>s\<close> starts, searching from \<open>offset\<close>,
  and whether the end of the string was reached. The library counts the backslashes in
  front of a dot; after an odd number of them the dot is escaped and ends no label.\<close>

definition escaped :: "string \<Rightarrow> nat \<Rightarrow> bool" where
  "escaped s i \<longleftrightarrow> odd (length (takeWhile (\<lambda>c. c = CHR 0x5C) (rev (take i s))))"

function NextLabel_from :: "string \<Rightarrow> nat \<Rightarrow> nat \<times> bool" where
  "NextLabel_from s i =
     (if i + 1 < length s
      then (if s ! i = CHR ''.'' \<and> \<not> escaped s i then (i + 1, False)
            else NextLabel_from s (i + 1))
      else (i + 1, True))"
  by pat_completeness auto
termination
  by (relation "measure (\<lambda>(s, i). length s - i)") auto

definition NextLabel :: "string \<Rightarrow> nat \<Rightarrow> nat \<times> bool" where
  "NextLabel s offset = (if s = [] then (0, True) else NextLabel_from s offset)"

text \<open>\<^verbatim>\<open>rcode, _ := h.pluginChain.ServeDNS(ctx, w, r)\<close>, then \<^verbatim>\<open>errorFunc\<close> unless the code
  says the chain wrote the response itself, then \<^verbatim>\<open>return\<close>.\<close>

definition serve_chain :: "config \<Rightarrow> handler \<Rightarrow> ctx \<Rightarrow> dns_msg \<Rightarrow> exit" where
  "serve_chain h chain c r =
     (case ServeDNS_h chain c r of
        Inl p \<Rightarrow> ([ChainServeDNS h c], Some p)
      | Inr rc \<Rightarrow>
          (ChainServeDNS h c # (if \<not> ClientWrite rc then errorFunc rc else []), None))"

fun passAllFilterFuncs :: "ctx \<Rightarrow> FilterFunc list \<Rightarrow> dns_msg \<Rightarrow> panic + bool" where
  "passAllFilterFuncs c [] r = Inr True"
| "passAllFilterFuncs c (ff # ffs) r =
     (case ff c r of
        Inl p \<Rightarrow> Inl p
      | Inr b \<Rightarrow> if \<not> b then Inr False else passAllFilterFuncs c ffs r)"

text \<open>\<^verbatim>\<open>if h.metaCollector != nil { ctx = h.metaCollector.Collect(ctx, ...) }\<close>. The field
  has the interface type \<^verbatim>\<open>MetadataCollector\<close>, so in Go a bookmarked value always has the
  method; a handler without it leaves the context as it is.\<close>

definition collect :: "config \<Rightarrow> ctx \<Rightarrow> dns_msg \<Rightarrow> panic + ctx" where
  "collect h c r =
     (case metaCollector h of
        None \<Rightarrow> Inr c
      | Some mc \<Rightarrow> (case Collect_mc mc of None \<Rightarrow> Inr c | Some f \<Rightarrow> f c r))"

text \<open>\<^verbatim>\<open>if h.ViewName != "" { ctx = context.WithValue(ctx, ViewKey{}, h.ViewName) }\<close>\<close>

definition with_view :: "config \<Rightarrow> ctx \<Rightarrow> ctx" where
  "with_view h c = (if ViewName h \<noteq> [] then c\<lparr>ViewKey := Some (ViewName h)\<rparr> else c)"

text \<open>The two steps both loops take on a Config that has a chain: collect the metadata,
  then \<^verbatim>\<open>passAllFilterFuncs\<close> in the new context. The result is whether the filters
  passed, and the new context.\<close>

definition try_config :: "dns_msg \<Rightarrow> config \<Rightarrow> ctx \<Rightarrow> panic + bool \<times> ctx" where
  "try_config r h c =
     (case collect h c r of
        Inl p \<Rightarrow> Inl p
      | Inr c1 \<Rightarrow>
          (case passAllFilterFuncs c1 (FilterFuncs h) r of
             Inl p \<Rightarrow> Inl p
           | Inr pass \<Rightarrow> Inr (pass, c1)))"

text \<open>The body of \<^verbatim>\<open>for _, h := range z\<close> in the suffix walk, for the first question
  \<open>q0\<close>. \<open>Inl\<close> leaves \<^verbatim>\<open>ServeDNS\<close> (a return or a panic), \<open>Inr\<close> goes on with the next
  Config.\<close>

definition zone_step :: "dns_msg \<Rightarrow> question \<Rightarrow> config \<Rightarrow> mux_state \<Rightarrow> exit + mux_state" where
  "zone_step r q0 h st =
     (case st of (c, dshandler) \<Rightarrow>
        (case pluginChain h of
           None \<Rightarrow> Inl (errorAndMetricsFunc RcodeRefused, None)
         | Some chain \<Rightarrow>
             (case try_config r h c of
                Inl p \<Rightarrow> Inl ([], Some p)
              | Inr (pass, c1) \<Rightarrow>
                  if pass
                  then (if Qtype q0 \<noteq> TypeDS
                        then Inl (serve_chain h chain (with_view h c1) r)
                        else Inr (with_view h c1, Some h))
                  else Inr (c1, dshandler))))"

fun zone_loop :: "dns_msg \<Rightarrow> question \<Rightarrow> config list \<Rightarrow> mux_state \<Rightarrow> exit + mux_state" where
  "zone_loop r q0 [] st = Inr st"
| "zone_loop r q0 (h # hs) st =
     (case zone_step r q0 h st of Inl e \<Rightarrow> Inl e | Inr st' \<Rightarrow> zone_loop r q0 hs st')"

declare NextLabel_from.simps [simp del]

lemma NextLabel_from_bounds:
  "NextLabel_from s i = (j, False) \<Longrightarrow> i < j \<and> j < length s"
proof (induction s i rule: NextLabel_from.induct)
  case (1 s i)
  note unfold = NextLabel_from.simps [of s i]
  show ?case
  proof (cases "i + 1 < length s")
    case False
    with "1.prems" unfold show ?thesis by simp
  next
    case True
    show ?thesis
    proof (cases "s ! i = CHR ''.'' \<and> \<not> escaped s i")
      case dot: True
      with True "1.prems" unfold have "j = i + 1" by simp
      with True show ?thesis by simp
    next
      case False
      with True "1.prems" unfold have "NextLabel_from s (i + 1) = (j, False)"
        by simp
      with "1.IH" [OF True False] show ?thesis by simp
    qed
  qed
qed

lemma NextLabel_bounds: "NextLabel s off = (j, False) \<Longrightarrow> off < j \<and> j < length s"
  by (auto simp: NextLabel_def split: if_splits dest: NextLabel_from_bounds)

text \<open>The suffix walk: the \<^verbatim>\<open>for\<close> loop with the variables \<^verbatim>\<open>off\<close>, \<^verbatim>\<open>ctx\<close> and
  \<^verbatim>\<open>dshandler\<close>; \<open>drop off q\<close> is \<^verbatim>\<open>q[off:]\<close>. It ends because \<^verbatim>\<open>NextLabel\<close> moves
  \<^verbatim>\<open>off\<close> forward and stays inside the name until it reports the end.\<close>

function walk ::
  "server \<Rightarrow> dns_msg \<Rightarrow> question \<Rightarrow> string \<Rightarrow> nat \<Rightarrow> mux_state \<Rightarrow> exit + mux_state" where
  "walk s r q0 q off st =
     (case (case zones s (drop off q) of
              Some z \<Rightarrow> zone_loop r q0 z st
            | None \<Rightarrow> Inr st) of
        Inl e \<Rightarrow> Inl e
      | Inr st' \<Rightarrow>
          (case NextLabel q off of
             (off', fin) \<Rightarrow> if fin then Inr st' else walk s r q0 q off' st'))"
  by pat_completeness auto
termination
proof (relation "measure (\<lambda>(s, r, q0, q, off, st). length q - off)")
  show "wf (measure (\<lambda>(s, r, q0, q, off, st). length q - off))" by simp
next
  fix s :: server and r :: dns_msg and q0 :: question and q :: string and off :: nat
    and st st' :: mux_state and x :: "nat \<times> bool" and off' :: nat and fin :: bool
  assume "(off', fin) = NextLabel q off" and "\<not> fin"
  then have "NextLabel q off = (off', False)" by simp
  from NextLabel_bounds [OF this] have "length q - off' < length q - off"
    by arith
  then show "((s, r, q0, q, off', st'), (s, r, q0, q, off, st))
          \<in> measure (\<lambda>(s, r, q0, q, off, st). length q - off)"
    by simp
qed

declare walk.simps [simp del]

text \<open>The wildcard match on the root zone: the body of the second
  \<^verbatim>\<open>for _, h := range z\<close>. A Config without a chain is passed over (\<^verbatim>\<open>continue\<close>).\<close>

fun wildcard_loop :: "dns_msg \<Rightarrow> config list \<Rightarrow> ctx \<Rightarrow> exit + ctx" where
  "wildcard_loop r [] c = Inr c"
| "wildcard_loop r (h # hs) c =
     (case pluginChain h of
        None \<Rightarrow> wildcard_loop r hs c
      | Some chain \<Rightarrow>
          (case try_config r h c of
             Inl p \<Rightarrow> Inl ([], Some p)
           | Inr (pass, c1) \<Rightarrow>
               if pass then Inl (serve_chain h chain (with_view h c1) r)
               else wildcard_loop r hs c1))"

text \<open>The wildcard match and the last line: the root zone's Configs, and \<^verbatim>\<open>REFUSED\<close> when
  none of them is dispatched.\<close>

definition wildcard :: "server \<Rightarrow> dns_msg \<Rightarrow> ctx \<Rightarrow> exit" where
  "wildcard s r c =
     (case (case zones s ''.'' of
              Some z \<Rightarrow> wildcard_loop r z c
            | None \<Rightarrow> Inr c) of
        Inl e \<Rightarrow> e
      | Inr c' \<Rightarrow> (errorAndMetricsFunc RcodeRefused, None))"

text \<open>What follows the walk:
  \<^verbatim>\<open>if r.Question[0].Qtype == dns.TypeDS && dshandler != nil && dshandler.pluginChain != nil\<close>,
  the DS handler's chain is called; else the wildcard match.\<close>

definition after_walk :: "server \<Rightarrow> dns_msg \<Rightarrow> question \<Rightarrow> mux_state \<Rightarrow> exit" where
  "after_walk s r q0 st =
     (case st of (c, dshandler) \<Rightarrow>
        (case dshandler of
           Some h \<Rightarrow>
             (case pluginChain h of
                Some chain \<Rightarrow>
                  if Qtype q0 = TypeDS then serve_chain h chain c r else wildcard s r c
              | None \<Rightarrow> wildcard s r c)
         | None \<Rightarrow> wildcard s r c))"

text \<open>From \<^verbatim>\<open>q := strings.ToLower(r.Question[0].Name)\<close> to the end of \<^verbatim>\<open>ServeDNS\<close>.\<close>

definition mux :: "server \<Rightarrow> ctx \<Rightarrow> dns_msg \<Rightarrow> question \<Rightarrow> exit" where
  "mux s c r q0 =
     (case walk s r q0 (ToLower (Name_q q0)) 0 (c, None) of
        Inl e \<Rightarrow> e
      | Inr st \<Rightarrow> after_walk s r q0 st)"

text \<open>The part of \<^verbatim>\<open>ServeDNS\<close> that the deferred \<^verbatim>\<open>recover\<close> covers: the class check
  (\<open>guarded\<close>), then the EDNS version check and the multiplexer (\<open>admitted\<close>). (Wrapping
  the writer in a ScrubWriter changes how a response is sized, not which calls are
  made.)\<close>

definition admitted :: "server \<Rightarrow> ctx \<Rightarrow> dns_msg \<Rightarrow> question \<Rightarrow> exit" where
  "admitted s c r q0 =
     (case edns_Version r of
        Some m \<Rightarrow> ([WriteMsg m], None)
      | None \<Rightarrow> mux s c r q0)"

definition guarded :: "server \<Rightarrow> ctx \<Rightarrow> dns_msg \<Rightarrow> question \<Rightarrow> exit" where
  "guarded s c r q0 =
     (if \<not> classChaos s \<and> Qclass q0 \<noteq> ClassINET
      then (errorAndMetricsFunc RcodeRefused, None)
      else admitted s c r q0)"

text \<open>The deferred function, installed when \<^verbatim>\<open>s.debug\<close> is false: on a panic it logs,
  counts and answers \<^verbatim>\<open>SERVFAIL\<close>, and \<^verbatim>\<open>ServeDNS\<close> returns normally.\<close>

definition recover :: "server \<Rightarrow> exit \<Rightarrow> exit" where
  "recover s e =
     (case e of
        (evs, None) \<Rightarrow> (evs, None)
      | (evs, Some rec) \<Rightarrow>
          (evs @ [LogPanic (stacktrace s), PanicInc] @ errorAndMetricsFunc RcodeServerFailure,
           None))"

text \<open>\<^verbatim>\<open>ServeDNS\<close>; \<open>None\<close> is the nil message. A result \<open>(evs, Some p)\<close> is the panic \<open>p\<close>
  leaving \<^verbatim>\<open>ServeDNS\<close>, which ends the process. On the nil message the code calls
  \<^verbatim>\<open>errorAndMetricsFunc\<close> with it, which dereferences the message (\<^verbatim>\<open>answer.SetRcode(r, rc)\<close>)
  before it reports or writes anything, and no \<^verbatim>\<open>recover\<close> is installed yet: the panic
  leaves \<^verbatim>\<open>ServeDNS\<close>. (The DNS library never hands a nil message to its handler.)\<close>

definition ServeDNS :: "server \<Rightarrow> ctx \<Rightarrow> dns_msg option \<Rightarrow> exit" where
  "ServeDNS s c ropt =
     (case ropt of
        None \<Rightarrow> ([], Some (Panic ''nil pointer dereference''))
      | Some r \<Rightarrow>
          (case Question r of
             [] \<Rightarrow> (errorAndMetricsFunc RcodeServerFailure, None)
           | q0 # qs \<Rightarrow>
               if \<not> debug s then recover s (guarded s c r q0) else guarded s c r q0))"

section \<open>Properties\<close>

subsection \<open>Notions used to state them\<close>

text \<open>A site with every field at Go's zero value (and the root zone), the base of the
  concrete sites below.\<close>

definition blank_site :: config where
  "blank_site =
     \<lparr>Zone = ''.'', Debug = False, Stacktrace = False, ReadTimeout = 0, WriteTimeout = 0,
      IdleTimeout = 0, TsigSecret = Map.empty, Plugin = [], FilterFuncs = [], ViewName = [],
      pluginChain = None, metaCollector = None, registry = Map.empty\<rparr>"

text \<open>Two readings of "the timeout the sites specify": the largest of the non-zero
  values, and the last of them in the order of the list; \<open>dflt\<close> when all are zero.\<close>

definition max_specified :: "int \<Rightarrow> int list \<Rightarrow> int" where
  "max_specified dflt ts =
     (case filter (\<lambda>t. t \<noteq> 0) ts of [] \<Rightarrow> dflt | t # ts' \<Rightarrow> fold max ts' t)"

definition last_specified :: "int \<Rightarrow> int list \<Rightarrow> int" where
  "last_specified dflt ts =
     (case filter (\<lambda>t. t \<noteq> 0) ts of [] \<Rightarrow> dflt | t # ts' \<Rightarrow> last (t # ts'))"

text \<open>A site that only defines one TSIG secret.\<close>

definition tsig_site :: "string \<Rightarrow> string \<Rightarrow> config" where
  "tsig_site key secret = blank_site\<lparr>TsigSecret := [key \<mapsto> secret]\<rparr>"

text \<open>The error of the last result that is an error, among the results of the shutdowns
  in slot order.\<close>

definition last_error :: "string option list \<Rightarrow> string option" where
  "last_error rs = (case filter (\<lambda>r. r \<noteq> None) rs of [] \<Rightarrow> None | e # es \<Rightarrow> last (e # es))"

text \<open>The listener slots that are not nil, in slot order.\<close>

definition started :: "server \<Rightarrow> dns_Server list" where
  "started s = List.map_filter (\<lambda>s1. s1) (servers s)"

text \<open>A \<^verbatim>\<open>Shutdown\<close> that fails on the stream server only, and a server on which both
  \<^verbatim>\<open>Serve\<close> and \<^verbatim>\<open>ServePacket\<close> have run.\<close>

definition tcp_fails :: "dns_Server \<Rightarrow> string option" where
  "tcp_fails d = (if Net d = ''tcp'' then Some ''tcp: shutdown failed'' else None)"

definition both_started :: server where
  "both_started = ServePacket (Serve (NewServer ''dns://:53'' []) ''tcp-listener'') ''udp-conn''"

text \<open>The links of a chain in the order the compiler builds them: \<open>links ps stack\<close> for
  the plugins \<open>ps\<close> applied one after the other, starting on \<open>stack\<close>. The compiler runs
  on the reversed plugin list, so \<open>links (rev (Plugin site)) None\<close> lists the links in
  reverse registration order.\<close>

fun links :: "(handler option \<Rightarrow> handler) list \<Rightarrow> handler option \<Rightarrow> handler list" where
  "links [] stack = []"
| "links (p # ps) stack = p stack # links ps (Some (p stack))"

text \<open>The link implements \<^verbatim>\<open>MetadataCollector\<close>.\<close>

definition is_collector :: "handler \<Rightarrow> bool" where
  "is_collector h \<longleftrightarrow> Collect_mc h \<noteq> None"

text \<open>A plugin whose handler is a metadata collector, and a site with two of them.\<close>

definition collector_plugin :: "string \<Rightarrow> handler option \<Rightarrow> handler" where
  "collector_plugin name next =
     \<lparr>Name = name,
      ServeDNS_h = (\<lambda>c r. case next of None \<Rightarrow> Inr RcodeServerFailure | Some h \<Rightarrow> ServeDNS_h h c r),
      Collect_mc = Some (\<lambda>c r. Inr (c\<lparr>metadata := (name, ''seen'') # metadata c\<rparr>)),
      isTrace = False\<rparr>"

definition two_collectors :: config where
  "two_collectors = blank_site\<lparr>Plugin := [collector_plugin ''metaA'', collector_plugin ''metaB'']\<rparr>"

text \<open>The offsets \<^verbatim>\<open>off\<close> the suffix walk visits, starting at \<open>off\<close>: the loop of
  \<open>walk\<close> without its body. They grow, so the suffixes \<^verbatim>\<open>q[off:]\<close> get shorter.\<close>

function walk_offsets :: "string \<Rightarrow> nat \<Rightarrow> nat list" where
  "walk_offsets q off =
     off # (case NextLabel q off of (off', fin) \<Rightarrow> if fin then [] else walk_offsets q off')"
  by pat_completeness auto
termination
proof (relation "measure (\<lambda>(q, off). length q - off)")
  show "wf (measure (\<lambda>(q, off). length q - off))" by simp
next
  fix q :: string and off off' :: nat and x :: "nat \<times> bool" and fin :: bool
  assume "(off', fin) = NextLabel q off" and "\<not> fin"
  then have "NextLabel q off = (off', False)" by simp
  from NextLabel_bounds [OF this] have "length q - off' < length q - off" by arith
  then show "((q, off'), (q, off)) \<in> measure (\<lambda>(q, off). length q - off)" by simp
qed

declare walk_offsets.simps [simp del]

text \<open>The Configs registered under a zone name, in registration order (none when the name
  is not a key of \<^verbatim>\<open>zones\<close>), and the Configs the walk meets for the name \<open>q\<close>, in the
  order in which it meets them: longest suffix first, registration order within a
  suffix.\<close>

definition zone_configs :: "server \<Rightarrow> string \<Rightarrow> config list" where
  "zone_configs s key = (case zones s key of Some z \<Rightarrow> z | None \<Rightarrow> [])"

definition walk_configs_from :: "server \<Rightarrow> string \<Rightarrow> nat \<Rightarrow> config list" where
  "walk_configs_from s q off = concat (map (\<lambda>i. zone_configs s (drop i q)) (walk_offsets q off))"

definition walk_configs :: "server \<Rightarrow> string \<Rightarrow> config list" where
  "walk_configs s q = walk_configs_from s q 0"

text \<open>A Config's filters all pass in the context \<open>c\<close> (after its metadata collector ran);
  the result is the context they passed in.\<close>

definition accepts :: "dns_msg \<Rightarrow> config \<Rightarrow> ctx \<Rightarrow> ctx option" where
  "accepts r h c = (case try_config r h c of Inr (True, c1) \<Rightarrow> Some c1 | _ \<Rightarrow> None)"

text \<open>Each Config of the list, in turn, fails a filter; the result is the context after
  their metadata collectors.\<close>

fun rejects :: "dns_msg \<Rightarrow> config list \<Rightarrow> ctx \<Rightarrow> ctx option" where
  "rejects r [] c = Some c"
| "rejects r (h # hs) c =
     (case try_config r h c of Inr (False, c1) \<Rightarrow> rejects r hs c1 | _ \<Rightarrow> None)"

text \<open>The context after the walk has tried each Config of the list for a DS query: a Config
  may pass or fail, and one that passes sets its view name.\<close>

fun ds_scan :: "dns_msg \<Rightarrow> config list \<Rightarrow> ctx \<Rightarrow> ctx option" where
  "ds_scan r [] c = Some c"
| "ds_scan r (h # hs) c =
     (case try_config r h c of
        Inr (pass, c1) \<Rightarrow> ds_scan r hs (if pass then with_view h c1 else c1)
      | Inl p \<Rightarrow> None)"

definition has_chain :: "config \<Rightarrow> bool" where
  "has_chain h \<longleftrightarrow> pluginChain h \<noteq> None"

text \<open>\<^verbatim>\<open>ServeDNS\<close> answers \<^verbatim>\<open>REFUSED\<close> through \<^verbatim>\<open>errorAndMetricsFunc\<close> and returns.\<close>

definition refused :: exit where
  "refused = (errorAndMetricsFunc RcodeRefused, None)"

text \<open>The walk gets past the Configs of the list: for a DS query none of them panics, for
  another query each of them fails a filter.\<close>

definition walk_past :: "dns_msg \<Rightarrow> question \<Rightarrow> config list \<Rightarrow> ctx \<Rightarrow> bool" where
  "walk_past r q0 pre c \<longleftrightarrow>
     (if Qtype q0 = TypeDS then ds_scan r pre c \<noteq> None else rejects r pre c \<noteq> None)"

text \<open>The Config a site has become when \<^verbatim>\<open>NewServer\<close> has compiled its plugins, and
  whether a link of a site, or of a list of sites, has a name of \<^verbatim>\<open>EnableChaos\<close>.\<close>

definition compiled :: "config \<Rightarrow> config" where
  "compiled site = snd (compile_site (init_server []) site)"

definition chaos_site :: "config \<Rightarrow> bool" where
  "chaos_site site \<longleftrightarrow> list_ex (\<lambda>h. Name h \<in> EnableChaos) (links (rev (Plugin site)) None)"

definition chaos_present :: "config list \<Rightarrow> bool" where
  "chaos_present sites \<longleftrightarrow> list_ex chaos_site sites"

text \<open>Concrete plugins, sites and requests: a plugin that answers by itself with a code,
  a site for a zone with its plugins, a request with one question.\<close>

definition answer_plugin :: "string \<Rightarrow> rcode \<Rightarrow> handler option \<Rightarrow> handler" where
  "answer_plugin name rc next =
     \<lparr>Name = name, ServeDNS_h = (\<lambda>c r. Inr rc), Collect_mc = None, isTrace = False\<rparr>"

definition zone_site :: "string \<Rightarrow> (handler option \<Rightarrow> handler) list \<Rightarrow> config" where
  "zone_site z ps = blank_site\<lparr>Zone := z, Plugin := ps\<rparr>"

definition query :: "string \<Rightarrow> 16 word \<Rightarrow> 16 word \<Rightarrow> dns_msg" where
  "query name qtype qclass =
     \<lparr>Question = [\<lparr>Name_q = name, Qtype = qtype, Qclass = qclass\<rparr>], OptVersion = None\<rparr>"

definition TypeA :: "16 word" where "TypeA = 1"


text \<open>A site with a view whose one filter fails (or passes), and the list of that site and
  a site for the same zone without plugins.\<close>

definition view_site :: "bool \<Rightarrow> config" where
  "view_site pass =
     (zone_site ''example.com.'' [answer_plugin ''whoami'' 0])
       \<lparr>FilterFuncs := [\<lambda>c r. Inr pass], ViewName := ''internal''\<rparr>"

definition view_then_ownerless :: "bool \<Rightarrow> config list" where
  "view_then_ownerless pass = [view_site pass, zone_site ''example.com.'' []]"

text \<open>The CHAOS class, and one site whose only plugin has a name of \<^verbatim>\<open>EnableChaos\<close>.\<close>

definition ClassCHAOS :: "16 word" where "ClassCHAOS = 3"

definition chaos_elsewhere :: "config list" where
  "chaos_elsewhere = [zone_site ''example.org.'' [answer_plugin ''chaos'' 0]]"

text \<open>The codes of the responses \<^verbatim>\<open>ServeDNS\<close> writes itself, in order (what a chain writes
  on its own is the chain's); how often the panic counter was incremented; and a list of
  events with no response and no increment.\<close>

fun responses :: "event list \<Rightarrow> rcode list" where
  "responses [] = []"
| "responses (ErrorAndMetrics rc # es) = rc # responses es"
| "responses (ErrorFunc rc # es) = rc # responses es"
| "responses (WriteMsg rc # es) = rc # responses es"
| "responses (e # es) = responses es"

fun panics_counted :: "event list \<Rightarrow> nat" where
  "panics_counted [] = 0"
| "panics_counted (PanicInc # es) = Suc (panics_counted es)"
| "panics_counted (e # es) = panics_counted es"

definition quiet :: "event list \<Rightarrow> bool" where
  "quiet evs \<longleftrightarrow> responses evs = [] \<and> panics_counted evs = 0"

text \<open>A plugin whose \<^verbatim>\<open>ServeDNS\<close> panics, and one site with it, with or without
  \<^verbatim>\<open>debug\<close>.\<close>

definition panic_plugin :: "string \<Rightarrow> handler option \<Rightarrow> handler" where
  "panic_plugin name next =
     \<lparr>Name = name, ServeDNS_h = (\<lambda>c r. Inl (Panic ''nil pointer dereference'')),
      Collect_mc = None, isTrace = False\<rparr>"

definition crashing :: "bool \<Rightarrow> config list" where
  "crashing dbg = [(zone_site ''example.com.'' [panic_plugin ''crash''])\<lparr>Debug := dbg\<rparr>]"

text \<open>The Configs a query of another type than DS can be dispatched to, in the order in
  which \<^verbatim>\<open>ServeDNS\<close> tries them: those of the walk, then those of the root zone that have a
  chain (the wildcard match).\<close>

definition candidates :: "server \<Rightarrow> string \<Rightarrow> config list" where
  "candidates s q = walk_configs s q @ filter has_chain (zone_configs s ''.'')"

text \<open>Three sites: example.com. with a view whose filter fails (or passes), com. and the
  root zone.\<close>

definition delegation :: "bool \<Rightarrow> config list" where
  "delegation pass =
     [view_site pass,
      zone_site ''com.'' [answer_plugin ''file'' 0],
      zone_site ''.'' [answer_plugin ''hosts'' 0]]"

text \<open>Two sites: example.com. and the root zone.\<close>

definition with_root :: "config list" where
  "with_root =
     [zone_site ''example.com.'' [answer_plugin ''whoami'' 0],
      zone_site ''.'' [answer_plugin ''hosts'' 0]]"

subsection \<open>What NewServer leaves in the server\<close>

text \<open>Compiling the plugins of a site touches only the tracer and the chaos flag of the
  server.\<close>

lemma compile_step_server:
  "compile_step p (s, site, stack) = (s', site', stack') \<Longrightarrow>
     readTimeout s' = readTimeout s \<and> writeTimeout s' = writeTimeout s \<and>
     idleTimeout s' = idleTimeout s \<and> tsigSecret s' = tsigSecret s \<and> zones s' = zones s \<and>
     servers s' = servers s \<and> debug s' = debug s \<and> stacktrace s' = stacktrace s \<and> dnsWg s' = dnsWg s"
  unfolding compile_step_def Let_def by (auto split: if_splits)

lemma compile_server:
  "compile ps (s, site, stack) = (s', site', stack') \<Longrightarrow>
     readTimeout s' = readTimeout s \<and> writeTimeout s' = writeTimeout s \<and>
     idleTimeout s' = idleTimeout s \<and> tsigSecret s' = tsigSecret s \<and> zones s' = zones s \<and>
     servers s' = servers s \<and> debug s' = debug s \<and> stacktrace s' = stacktrace s \<and> dnsWg s' = dnsWg s"
proof (induction ps arbitrary: s site stack)
  case Nil
  then show ?case by simp
next
  case (Cons p ps)
  obtain s1 site1 stack1 where st: "compile_step p (s, site, stack) = (s1, site1, stack1)"
    by (cases "compile_step p (s, site, stack)") auto
  with Cons.prems have "compile ps (s1, site1, stack1) = (s', site', stack')" by simp
  from Cons.IH [OF this] compile_step_server [OF st] show ?case by simp
qed

lemma compile_site_server:
  assumes "compile_site s site = (s', site')"
  shows "readTimeout s' = readTimeout s \<and> writeTimeout s' = writeTimeout s \<and>
     idleTimeout s' = idleTimeout s \<and> tsigSecret s' = tsigSecret s \<and> zones s' = zones s \<and>
     servers s' = servers s \<and> debug s' = debug s \<and> stacktrace s' = stacktrace s \<and> dnsWg s' = dnsWg s"
proof -
  obtain s1 site1 stack1 where c: "compile (rev (Plugin site)) (s, site, None) = (s1, site1, stack1)"
    by (cases "compile (rev (Plugin site)) (s, site, None)") auto
  with assms have "s' = s1" by (simp add: compile_site_def)
  with compile_server [OF c] show ?thesis by simp
qed

lemma add_site_fields:
  "readTimeout (add_site s site) = (if ReadTimeout site \<noteq> 0 then ReadTimeout site else readTimeout s)"
  "writeTimeout (add_site s site) = (if WriteTimeout site \<noteq> 0 then WriteTimeout site else writeTimeout s)"
  "idleTimeout (add_site s site) = (if IdleTimeout site \<noteq> 0 then IdleTimeout site else idleTimeout s)"
  "tsigSecret (add_site s site) = tsigSecret s ++ TsigSecret site"
  "servers (add_site s site) = servers s"
  "dnsWg (add_site s site) = dnsWg s"
proof -
  obtain s7 site' where c: "compile_site (site_settings s site) site = (s7, site')"
    by (cases "compile_site (site_settings s site) site") auto
  have eq: "add_site s site = s7\<lparr>zones := (zones s7)(Zone site \<mapsto>
                  (case zones s7 (Zone site) of None \<Rightarrow> [] | Some z \<Rightarrow> z) @ [site'])\<rparr>"
    using c by (simp add: add_site_def)
  note f = compile_site_server [OF c]
  show "readTimeout (add_site s site) = (if ReadTimeout site \<noteq> 0 then ReadTimeout site else readTimeout s)"
    using f by (simp add: eq site_settings_def Let_def)
  show "writeTimeout (add_site s site) = (if WriteTimeout site \<noteq> 0 then WriteTimeout site else writeTimeout s)"
    using f by (simp add: eq site_settings_def Let_def)
  show "idleTimeout (add_site s site) = (if IdleTimeout site \<noteq> 0 then IdleTimeout site else idleTimeout s)"
    using f by (simp add: eq site_settings_def Let_def)
  show "tsigSecret (add_site s site) = tsigSecret s ++ TsigSecret site"
    using f by (simp add: eq site_settings_def Let_def)
  show "servers (add_site s site) = servers s"
    using f by (simp add: eq site_settings_def Let_def)
  show "dnsWg (add_site s site) = dnsWg s"
    using f by (simp add: eq site_settings_def Let_def)
qed

subsection \<open>Timeouts\<close>

lemma last_specified_Cons:
  "last_specified dflt (t # ts) = last_specified (if t \<noteq> 0 then t else dflt) ts"
  by (simp add: last_specified_def split: list.splits)

lemma foldl_add_site_timeouts:
  "readTimeout (foldl add_site s sites) = last_specified (readTimeout s) (map ReadTimeout sites)"
  "writeTimeout (foldl add_site s sites) = last_specified (writeTimeout s) (map WriteTimeout sites)"
  "idleTimeout (foldl add_site s sites) = last_specified (idleTimeout s) (map IdleTimeout sites)"
proof (induction sites arbitrary: s)
  case Nil
  { case 1 show ?case by (simp add: last_specified_def) }
  { case 2 show ?case by (simp add: last_specified_def) }
  { case 3 show ?case by (simp add: last_specified_def) }
next
  case (Cons site sites)
  { case 1 show ?case by (simp add: Cons.IH add_site_fields last_specified_Cons) }
  { case 2 show ?case by (simp add: Cons.IH add_site_fields last_specified_Cons) }
  { case 3 show ?case by (simp add: Cons.IH add_site_fields last_specified_Cons) }
qed

text \<open>C5, as the code has it: after \<^verbatim>\<open>NewServer\<close> each of \<^verbatim>\<open>readTimeout\<close>,
  \<^verbatim>\<open>writeTimeout\<close> and \<^verbatim>\<open>idleTimeout\<close> is the value of the last Config of the list that
  specifies a non-zero one, or the default (3 s, 5 s, 10 s) when no Config does. Each round
  of the loop assigns; none compares.\<close>

theorem timeouts_last_specified:
  "readTimeout (NewServer addr sites) = last_specified (3 * Second) (map ReadTimeout sites) \<and>
   writeTimeout (NewServer addr sites) = last_specified (5 * Second) (map WriteTimeout sites) \<and>
   idleTimeout (NewServer addr sites) = last_specified (10 * Second) (map IdleTimeout sites)"
  by (simp add: NewServer_def foldl_add_site_timeouts init_server_def)

theorem timeouts_last_specified_witness:
  "readTimeout (NewServer ''dns://:53''
       [blank_site\<lparr>ReadTimeout := 10 * Second\<rparr>, blank_site\<lparr>ReadTimeout := 2 * Second\<rparr>])
     = 2 * Second \<and>
   writeTimeout (NewServer ''dns://:53''
       [blank_site\<lparr>ReadTimeout := 10 * Second\<rparr>, blank_site\<lparr>ReadTimeout := 2 * Second\<rparr>])
     = 5 * Second \<and>
   idleTimeout (NewServer ''dns://:53''
       [blank_site\<lparr>ReadTimeout := 10 * Second\<rparr>, blank_site\<lparr>ReadTimeout := 2 * Second\<rparr>])
     = 10 * Second"
  using timeouts_last_specified [of "''dns://:53''"
      "[blank_site\<lparr>ReadTimeout := 10 * Second\<rparr>, blank_site\<lparr>ReadTimeout := 2 * Second\<rparr>]"]
  by (simp add: last_specified_def blank_site_def Second_def)

text \<open>C5 as stated (the maximum over the Configs) fails: with read timeouts of 10 s and
  then 2 s the server has 2 s.\<close>

theorem timeouts_max_counterexample:
  "readTimeout (NewServer ''dns://:53''
       [blank_site\<lparr>ReadTimeout := 10 * Second\<rparr>, blank_site\<lparr>ReadTimeout := 2 * Second\<rparr>])
   \<noteq> max_specified (3 * Second)
       (map ReadTimeout [blank_site\<lparr>ReadTimeout := 10 * Second\<rparr>, blank_site\<lparr>ReadTimeout := 2 * Second\<rparr>])"
  by (simp add: NewServer_def add_site_fields init_server_def max_specified_def
      blank_site_def Second_def)

subsection \<open>TSIG secrets\<close>

lemma foldl_add_site_servers: "servers (foldl add_site s sites) = servers s"
  by (induction sites arbitrary: s) (simp_all add: add_site_fields)

lemma NewServer_servers: "servers (NewServer addr sites) = [None, None]"
  by (simp add: NewServer_def foldl_add_site_servers init_server_def)

lemma foldl_add_site_tsig_later:
  "\<forall>c\<in>set post. TsigSecret c key = None \<Longrightarrow>
     tsigSecret (foldl add_site s post) key = tsigSecret s key"
  by (induction post arbitrary: s) (simp_all add: add_site_fields map_add_def)

lemma NewServer_tsig_latest:
  assumes "sites = pre @ site # post" and "TsigSecret site key = Some secret"
    and "\<forall>c\<in>set post. TsigSecret c key = None"
  shows "tsigSecret (NewServer addr sites) key = Some secret"
proof -
  let ?s = "foldl add_site (init_server addr) pre"
  have "tsigSecret (NewServer addr sites) key = tsigSecret (add_site ?s site) key"
    using assms(1) foldl_add_site_tsig_later [OF assms(3)] by (simp add: NewServer_def)
  also have "\<dots> = Some secret"
    using assms(2) by (simp add: add_site_fields)
  finally show ?thesis .
qed

text \<open>C10: when several Configs of the list define a secret under the same key name, the
  merged \<^verbatim>\<open>tsigSecret\<close> map holds the secret of the latest of them (\<open>site\<close>, with no
  definition of the key after it), and that one map is the \<^verbatim>\<open>TsigSecret\<close> of both the
  stream server built by \<^verbatim>\<open>Serve\<close> and the datagram server built by
  \<^verbatim>\<open>ServePacket\<close>.\<close>

theorem tsig_latest_wins:
  assumes "sites = pre @ site # post" and "TsigSecret site key = Some secret"
    and "\<forall>c\<in>set post. TsigSecret c key = None"
  shows "tsigSecret (NewServer addr sites) key = Some secret \<and>
         map (map_option srv_TsigSecret) (servers (ServePacket (Serve (NewServer addr sites) l) p))
           = [Some (tsigSecret (NewServer addr sites)), Some (tsigSecret (NewServer addr sites))]"
  using NewServer_tsig_latest [OF assms]
  by (simp add: Serve_def ServePacket_def NewServer_servers tcp_def udp_def)

theorem tsig_latest_wins_witness:
  "tsigSecret (NewServer ''dns://:53'' [tsig_site ''key.'' ''old'', tsig_site ''key.'' ''new''])
       ''key.'' = Some ''new'' \<and>
   map (map_option srv_TsigSecret)
     (servers (ServePacket (Serve (NewServer ''dns://:53''
         [tsig_site ''key.'' ''old'', tsig_site ''key.'' ''new'']) ''tcp-listener'') ''udp-conn''))
     = [Some (tsigSecret (NewServer ''dns://:53'' [tsig_site ''key.'' ''old'', tsig_site ''key.'' ''new''])),
        Some (tsigSecret (NewServer ''dns://:53'' [tsig_site ''key.'' ''old'', tsig_site ''key.'' ''new'']))]"
  using tsig_latest_wins [of "[tsig_site ''key.'' ''old'', tsig_site ''key.'' ''new'']"
      "[tsig_site ''key.'' ''old'']" "tsig_site ''key.'' ''new''" "[]" "''key.''" "''new''"
      "''dns://:53''" "''tcp-listener''" "''udp-conn''"]
  by (simp add: tsig_site_def)

subsection \<open>Stop\<close>

lemma shutdown_loop_last:
  "shutdown_loop Shutdown slots err =
     (case List.map_filter (\<lambda>s1. s1) slots of [] \<Rightarrow> err | d # ds \<Rightarrow> Shutdown (last (d # ds)))"
proof (induction slots arbitrary: err)
  case Nil
  show ?case by (simp add: List.map_filter_simps)
next
  case (Cons s1 slots)
  show ?case
    by (cases s1) (simp_all add: Cons.IH List.map_filter_simps split: list.splits)
qed

text \<open>C8, as the code has it: \<^verbatim>\<open>Stop\<close> returns what the \<^verbatim>\<open>Shutdown\<close> of the last non-nil
  listener slot returned, an error or nil, and nil when no slot is set: every non-nil
  slot overwrites \<^verbatim>\<open>err\<close>, also with nil.\<close>

theorem stop_returns_last_shutdown:
  "snd (Stop goos Shutdown s) =
     (case started s of [] \<Rightarrow> None | d # ds \<Rightarrow> Shutdown (last (d # ds)))"
  by (simp add: Stop_def Let_def started_def shutdown_loop_last)

theorem stop_returns_last_shutdown_witness:
  "snd (Stop ''linux'' tcp_fails both_started) = None \<and> map Net (started both_started) = [''tcp'', ''udp'']"
  using stop_returns_last_shutdown [of "''linux''" tcp_fails both_started]
  by (simp add: started_def both_started_def Serve_def ServePacket_def NewServer_servers
      tcp_def udp_def List.map_filter_simps tcp_fails_def)

text \<open>C8 as stated (the last error is returned) fails: when the stream server's shutdown
  fails and the datagram server's succeeds, \<^verbatim>\<open>Stop\<close> returns nil.\<close>

theorem stop_last_error_counterexample:
  "snd (Stop ''linux'' tcp_fails both_started) \<noteq> last_error (map tcp_fails (started both_started))"
  by (simp add: Stop_def Let_def started_def both_started_def Serve_def ServePacket_def
      NewServer_servers tcp_def udp_def List.map_filter_simps tcp_fails_def last_error_def)

subsection \<open>The bookmarked metadata collector\<close>

lemma compile_step_metaCollector:
  "compile_step p (s, site, stack) = (s', site', stack') \<Longrightarrow>
     stack' = Some (p stack) \<and>
     metaCollector site' = (if is_collector (p stack) then Some (p stack) else metaCollector site)"
  unfolding compile_step_def Let_def is_collector_def registerHandler_def
  by (auto split: if_splits)

lemma compile_metaCollector:
  "compile ps (s, site, stack) = (s', site', stack') \<Longrightarrow>
     metaCollector site' =
       (case filter is_collector (links ps stack) of
          [] \<Rightarrow> metaCollector site
        | l # ls \<Rightarrow> Some (last (l # ls)))"
proof (induction ps arbitrary: s site stack)
  case Nil
  then show ?case by simp
next
  case (Cons p ps)
  obtain s1 site1 stack1 where st: "compile_step p (s, site, stack) = (s1, site1, stack1)"
    by (cases "compile_step p (s, site, stack)") auto
  note step = compile_step_metaCollector [OF st]
  from Cons.prems st have "compile ps (s1, site1, Some (p stack)) = (s', site', stack')"
    using step by simp
  from Cons.IH [OF this] step show ?case
    by (simp split: list.splits)
qed

lemma compile_site_metaCollector:
  "metaCollector (snd (compile_site s site)) =
     (case filter is_collector (links (rev (Plugin site)) None) of
        [] \<Rightarrow> metaCollector site
      | l # ls \<Rightarrow> Some (last (l # ls)))"
proof -
  obtain s1 site1 stack1 where c: "compile (rev (Plugin site)) (s, site, None) = (s1, site1, stack1)"
    by (cases "compile (rev (Plugin site)) (s, site, None)") auto
  then have "metaCollector (snd (compile_site s site)) = metaCollector site1"
    by (simp add: compile_site_def)
  with compile_metaCollector [OF c] show ?thesis by simp
qed

text \<open>C6, as the code has it: for a Config with at least one link that is a
  \<^verbatim>\<open>MetadataCollector\<close>, the bookmarked \<^verbatim>\<open>metaCollector\<close> after compilation is the last such
  link met while the plugin list is walked in reverse registration order, that is, the
  one of the plugin registered first: every such link overwrites the bookmark. The
  bookmark is one field, so there is at most one per Config.\<close>

theorem metaCollector_last_encountered:
  "filter is_collector (links (rev (Plugin site)) None) \<noteq> [] \<Longrightarrow>
     metaCollector (snd (compile_site s site)) =
       Some (last (filter is_collector (links (rev (Plugin site)) None)))"
  using compile_site_metaCollector [of s site] by (simp split: list.splits)

theorem metaCollector_last_encountered_witness:
  "map Name (filter is_collector (links (rev (Plugin two_collectors)) None)) = [''metaB'', ''metaA''] \<and>
   map_option Name (metaCollector (snd (compile_site (init_server ''dns://:53'') two_collectors)))
     = Some ''metaA''"
  using metaCollector_last_encountered [of two_collectors "init_server ''dns://:53''"]
  by (simp add: two_collectors_def blank_site_def collector_plugin_def is_collector_def)

text \<open>C6 as stated (the first collector met in the reverse walk, the last-registered one,
  is bookmarked) fails on a site with the collectors metaA and metaB in this order: the
  reverse walk meets metaB first, and metaA is bookmarked.\<close>

theorem metaCollector_first_encountered_counterexample:
  "filter is_collector (links (rev (Plugin two_collectors)) None) \<noteq> [] \<and>
   metaCollector (snd (compile_site (init_server ''dns://:53'') two_collectors))
     \<noteq> Some (hd (filter is_collector (links (rev (Plugin two_collectors)) None)))"
proof -
  let ?m = "metaCollector (snd (compile_site (init_server ''dns://:53'') two_collectors))"
  let ?ls = "filter is_collector (links (rev (Plugin two_collectors)) None)"
  have a: "map_option Name ?m = Some ''metaA''"
    by (simp add: compile_site_metaCollector two_collectors_def blank_site_def
        collector_plugin_def is_collector_def)
  have b: "map Name ?ls = [''metaB'', ''metaA'']"
    by (simp add: two_collectors_def blank_site_def collector_plugin_def is_collector_def)
  from b have ne: "?ls \<noteq> []" by auto
  from b have "Name (hd ?ls) = ''metaB''" by (cases ?ls) auto
  with a have "?m \<noteq> Some (hd ?ls)" by auto
  with ne show ?thesis by simp
qed

subsection \<open>The suffix walk as one loop over the Configs it meets\<close>

lemma zone_loop_append:
  "zone_loop r q0 (xs @ ys) st =
     (case zone_loop r q0 xs st of Inl e \<Rightarrow> Inl e | Inr st' \<Rightarrow> zone_loop r q0 ys st')"
  by (induction xs arbitrary: st) (simp_all split: sum.splits)

lemma walk_flat: "walk s r q0 q off st = zone_loop r q0 (walk_configs_from s q off) st"
proof (induction s r q0 q off st rule: walk.induct)
  case (1 s r q0 q off st)
  obtain off' fin where nl: "NextLabel q off = (off', fin)" by (cases "NextLabel q off") auto
  have z: "(case zones s (drop off q) of Some z \<Rightarrow> zone_loop r q0 z st | None \<Rightarrow> Inr st)
             = zone_loop r q0 (zone_configs s (drop off q)) st"
    by (simp add: zone_configs_def split: option.splits)
  show ?case
  proof (cases "zone_loop r q0 (zone_configs s (drop off q)) st")
    case (Inl e)
    then show ?thesis
      using nl z
      by (simp add: walk.simps [of s r q0 q off st] walk_configs_from_def
          walk_offsets.simps [of q off] zone_loop_append)
  next
    case (Inr st')
    show ?thesis
    proof (cases fin)
      case True
      then show ?thesis
        using nl z Inr
        by (simp add: walk.simps [of s r q0 q off st] walk_configs_from_def
            walk_offsets.simps [of q off] zone_loop_append)
    next
      case False
      have "walk s r q0 q off' st' = zone_loop r q0 (walk_configs_from s q off') st'"
        using "1.IH" z Inr nl False by (auto simp: zone_configs_def)
      then show ?thesis
        using nl z Inr False
        by (simp add: walk.simps [of s r q0 q off st] walk_configs_from_def
            walk_offsets.simps [of q off] zone_loop_append)
    qed
  qed
qed

lemma zone_loop_rejects:
  "rejects r pre c = Some c' \<Longrightarrow> \<forall>h\<in>set pre. has_chain h \<Longrightarrow>
     zone_loop r q0 pre (c, ds) = Inr (c', ds)"
proof (induction pre arbitrary: c)
  case Nil
  then show ?case by simp
next
  case (Cons h hs)
  from Cons.prems(1) obtain c1 where t: "try_config r h c = Inr (False, c1)"
    and rest: "rejects r hs c1 = Some c'"
    by (auto split: sum.splits prod.splits bool.splits)
  from Cons.prems(2) obtain chain where ch: "pluginChain h = Some chain"
    by (auto simp: has_chain_def)
  have "zone_step r q0 h (c, ds) = Inr (c1, ds)"
    using t ch by (simp add: zone_step_def)
  moreover have "zone_loop r q0 hs (c1, ds) = Inr (c', ds)"
    using Cons.IH [OF rest] Cons.prems(2) by simp
  ultimately show ?case by simp
qed

lemma zone_loop_ds_scan:
  "Qtype q0 = TypeDS \<Longrightarrow> ds_scan r pre c = Some c' \<Longrightarrow> \<forall>h\<in>set pre. has_chain h \<Longrightarrow>
     \<exists>ds'. zone_loop r q0 pre (c, ds) = Inr (c', ds')"
proof (induction pre arbitrary: c ds)
  case Nil
  then show ?case by simp
next
  case (Cons h hs)
  from Cons.prems(2) obtain pass c1 where t: "try_config r h c = Inr (pass, c1)"
    and rest: "ds_scan r hs (if pass then with_view h c1 else c1) = Some c'"
    by (auto split: sum.splits prod.splits)
  from Cons.prems(3) obtain chain where ch: "pluginChain h = Some chain"
    by (auto simp: has_chain_def)
  have step: "zone_step r q0 h (c, ds) =
      Inr (if pass then with_view h c1 else c1, if pass then Some h else ds)"
    using t ch Cons.prems(1) by (simp add: zone_step_def)
  from Cons.IH [OF Cons.prems(1) rest, of "if pass then Some h else ds"] Cons.prems(3)
  obtain ds' where "zone_loop r q0 hs (if pass then with_view h c1 else c1,
      if pass then Some h else ds) = Inr (c', ds')"
    by auto
  with step show ?case by simp
qed

lemma zone_step_accepts:
  "accepts r h c = Some c1 \<Longrightarrow> pluginChain h = Some chain \<Longrightarrow>
     zone_step r q0 h (c, ds) =
       (if Qtype q0 \<noteq> TypeDS then Inl (serve_chain h chain (with_view h c1) r)
        else Inr (with_view h c1, Some h))"
  by (auto simp: accepts_def zone_step_def split: sum.splits prod.splits bool.splits)

lemma zone_step_nil_chain:
  "pluginChain h = None \<Longrightarrow> zone_step r q0 h st = Inl refused"
  by (cases st) (simp add: zone_step_def refused_def)

lemma wildcard_loop_has_chain:
  "wildcard_loop r z c = wildcard_loop r (filter has_chain z) c"
  by (induction z arbitrary: c)
    (auto simp: has_chain_def split: option.splits sum.splits prod.splits)

lemma wildcard_loop_rejects:
  "rejects r pre c = Some c' \<Longrightarrow> \<forall>h\<in>set pre. has_chain h \<Longrightarrow>
     wildcard_loop r (pre @ rest) c = wildcard_loop r rest c'"
proof (induction pre arbitrary: c)
  case Nil
  then show ?case by simp
next
  case (Cons h hs)
  from Cons.prems(1) obtain c1 where t: "try_config r h c = Inr (False, c1)"
    and rest: "rejects r hs c1 = Some c'"
    by (auto split: sum.splits prod.splits bool.splits)
  from Cons.prems(2) obtain chain where ch: "pluginChain h = Some chain"
    by (auto simp: has_chain_def)
  show ?case
    using t ch Cons.IH [OF rest] Cons.prems(2) by simp
qed

lemma wildcard_loop_accepts:
  "accepts r h c = Some c1 \<Longrightarrow> pluginChain h = Some chain \<Longrightarrow>
     wildcard_loop r (h # post) c = Inl (serve_chain h chain (with_view h c1) r)"
  by (auto simp: accepts_def split: sum.splits prod.splits bool.splits)

lemma after_walk_ds:
  "Qtype q0 = TypeDS \<Longrightarrow> pluginChain h = Some chain \<Longrightarrow>
     after_walk s r q0 (c, Some h) = serve_chain h chain c r"
  by (simp add: after_walk_def)

lemma after_walk_no_ds:
  "Qtype q0 \<noteq> TypeDS \<or> ds = None \<Longrightarrow> after_walk s r q0 (c, ds) = wildcard s r c"
  by (auto simp: after_walk_def split: option.splits)

lemma mux_flat:
  "mux s c r q0 =
     (case zone_loop r q0 (walk_configs s (ToLower (Name_q q0))) (c, None) of
        Inl e \<Rightarrow> e
      | Inr st \<Rightarrow> after_walk s r q0 st)"
  by (simp add: mux_def walk_flat walk_configs_def)

lemma ServeDNS_admitted:
  "Question r = q0 # qs \<Longrightarrow> classChaos s \<or> Qclass q0 = ClassINET \<Longrightarrow> edns_Version r = None \<Longrightarrow>
     ServeDNS s c (Some r) = (if \<not> debug s then recover s (mux s c r q0) else mux s c r q0)"
  by (auto simp: ServeDNS_def guarded_def admitted_def)

lemma recover_returned: "recover s (evs, None) = (evs, None)"
  by (simp add: recover_def)

lemma zone_loop_walk_past:
  assumes "walk_past r q0 pre c" and "\<forall>h\<in>set pre. has_chain h"
  shows "\<exists>st. zone_loop r q0 pre (c, ds) = Inr st"
proof (cases "Qtype q0 = TypeDS")
  case True
  with assms(1) obtain c' where "ds_scan r pre c = Some c'" by (auto simp: walk_past_def)
  from zone_loop_ds_scan [OF True this assms(2)] show ?thesis by blast
next
  case False
  with assms(1) obtain c' where "rejects r pre c = Some c'" by (auto simp: walk_past_def)
  from zone_loop_rejects [OF this assms(2)] show ?thesis by blast
qed

subsection \<open>The zones of a new server\<close>

lemma compile_step_config:
  "compile_step p (s, site, stack) = (s', site', stack') \<Longrightarrow>
     Zone site' = Zone site \<and> FilterFuncs site' = FilterFuncs site \<and>
     ViewName site' = ViewName site \<and> stack' = Some (p stack) \<and>
     classChaos s' = (classChaos s \<or> Name (p stack) \<in> EnableChaos)"
  unfolding compile_step_def Let_def registerHandler_def by (auto split: if_splits)

lemma compile_config:
  "compile ps (s, site, stack) = (s', site', stack') \<Longrightarrow>
     Zone site' = Zone site \<and> FilterFuncs site' = FilterFuncs site \<and>
     ViewName site' = ViewName site \<and>
     stack' = (case links ps stack of [] \<Rightarrow> stack | l # ls \<Rightarrow> Some (last (l # ls))) \<and>
     classChaos s' = (classChaos s \<or> list_ex (\<lambda>h. Name h \<in> EnableChaos) (links ps stack))"
proof (induction ps arbitrary: s site stack)
  case Nil
  then show ?case by simp
next
  case (Cons p ps)
  obtain s1 site1 stack1 where st: "compile_step p (s, site, stack) = (s1, site1, stack1)"
    by (cases "compile_step p (s, site, stack)") auto
  note step = compile_step_config [OF st]
  from Cons.prems st have "compile ps (s1, site1, Some (p stack)) = (s', site', stack')"
    using step by simp
  from Cons.IH [OF this] step show ?case
    by (auto split: list.splits)
qed

lemma compile_step_site_indep:
  "snd (compile_step p (s, site, stack)) = snd (compile_step p (t, site, stack))"
  by (simp add: compile_step_def Let_def)

lemma compile_site_indep:
  "snd (compile ps (s, site, stack)) = snd (compile ps (t, site, stack))"
proof (induction ps arbitrary: s t site stack)
  case Nil
  show ?case by simp
next
  case (Cons p ps)
  obtain s1 site1 stack1 where a: "compile_step p (s, site, stack) = (s1, site1, stack1)"
    by (cases "compile_step p (s, site, stack)") auto
  obtain t1 site2 stack2 where b: "compile_step p (t, site, stack) = (t1, site2, stack2)"
    by (cases "compile_step p (t, site, stack)") auto
  from compile_step_site_indep [of p s site stack t] a b
  have "site2 = site1" "stack2 = stack1" by simp_all
  with a b Cons.IH [of s1 site1 stack1 t1] show ?case by simp
qed

lemma compile_site_compiled: "snd (compile_site s site) = compiled site"
proof -
  have "snd (compile (rev (Plugin site)) (s, site, None))
      = snd (compile (rev (Plugin site)) (init_server [], site, None))"
    by (rule compile_site_indep)
  then show ?thesis
    by (auto simp: compiled_def compile_site_def split: prod.splits)
qed

lemma compiled_fields:
  "Zone (compiled site) = Zone site"
  "FilterFuncs (compiled site) = FilterFuncs site"
  "ViewName (compiled site) = ViewName site"
  "pluginChain (compiled site) =
     (case links (rev (Plugin site)) None of [] \<Rightarrow> None | l # ls \<Rightarrow> Some (last (l # ls)))"
  "metaCollector (compiled site) =
     (case filter is_collector (links (rev (Plugin site)) None) of
        [] \<Rightarrow> metaCollector site
      | l # ls \<Rightarrow> Some (last (l # ls)))"
proof -
  obtain s1 site1 stack1
    where c: "compile (rev (Plugin site)) (init_server [], site, None) = (s1, site1, stack1)"
    by (cases "compile (rev (Plugin site)) (init_server [], site, None)") auto
  then have eq: "compiled site = site1\<lparr>pluginChain := stack1\<rparr>"
    by (simp add: compiled_def compile_site_def)
  note f = compile_config [OF c]
  show "Zone (compiled site) = Zone site" using f by (simp add: eq)
  show "FilterFuncs (compiled site) = FilterFuncs site" using f by (simp add: eq)
  show "ViewName (compiled site) = ViewName site" using f by (simp add: eq)
  show "pluginChain (compiled site) =
     (case links (rev (Plugin site)) None of [] \<Rightarrow> None | l # ls \<Rightarrow> Some (last (l # ls)))"
    using f by (simp add: eq)
  show "metaCollector (compiled site) =
     (case filter is_collector (links (rev (Plugin site)) None) of
        [] \<Rightarrow> metaCollector site
      | l # ls \<Rightarrow> Some (last (l # ls)))"
    using compile_metaCollector [OF c] by (simp add: eq)
qed

lemma site_settings_fields:
  "zones (site_settings s site) = zones s"
  "classChaos (site_settings s site) = classChaos s"
  "debug (site_settings s site) = (debug s \<or> Debug site)"
  "stacktrace (site_settings s site) = Stacktrace site"
  by (simp_all add: site_settings_def Let_def)

lemma add_site_zones:
  "zones (add_site s site) =
     (zones s)(Zone site \<mapsto> zone_configs s (Zone site) @ [compiled site])"
  "classChaos (add_site s site) = (classChaos s \<or> chaos_site site)"
  "debug (add_site s site) = (debug s \<or> Debug site)"
  "stacktrace (add_site s site) = Stacktrace site"
proof -
  obtain s7 site' where c: "compile_site (site_settings s site) site = (s7, site')"
    by (cases "compile_site (site_settings s site) site") auto
  have eq: "add_site s site = s7\<lparr>zones := (zones s7)(Zone site \<mapsto>
                  (case zones s7 (Zone site) of None \<Rightarrow> [] | Some z \<Rightarrow> z) @ [site'])\<rparr>"
    using c by (simp add: add_site_def)
  have site': "site' = compiled site"
    using compile_site_compiled [of "site_settings s site" site] c by simp
  note f = compile_site_server [OF c]
  obtain s1 site1 stack1
    where d: "compile (rev (Plugin site)) (site_settings s site, site, None) = (s1, site1, stack1)"
    by (cases "compile (rev (Plugin site)) (site_settings s site, site, None)") auto
  with c have "s7 = s1" by (simp add: compile_site_def)
  with compile_config [OF d]
  have chaos: "classChaos s7 = (classChaos s \<or> chaos_site site)"
    by (simp add: chaos_site_def site_settings_fields)
  show "zones (add_site s site) =
     (zones s)(Zone site \<mapsto> zone_configs s (Zone site) @ [compiled site])"
    using f by (simp add: eq site' site_settings_fields zone_configs_def)
  show "classChaos (add_site s site) = (classChaos s \<or> chaos_site site)"
    using chaos by (simp add: eq)
  show "debug (add_site s site) = (debug s \<or> Debug site)"
    using f by (simp add: eq site_settings_fields)
  show "stacktrace (add_site s site) = Stacktrace site"
    using f by (simp add: eq site_settings_fields)
qed

lemma foldl_add_site_classChaos:
  "classChaos (foldl add_site s sites) = (classChaos s \<or> chaos_present sites)"
  by (induction sites arbitrary: s) (auto simp: add_site_zones chaos_present_def)

lemma NewServer_classChaos: "classChaos (NewServer addr sites) = chaos_present sites"
  by (simp add: NewServer_def foldl_add_site_classChaos init_server_def)

lemmas eval_walk = walk_offsets.simps NextLabel_def NextLabel_from.simps escaped_def

lemmas eval_server = NewServer_def add_site_zones init_server_def zone_configs_def
  zone_site_def blank_site_def
lemmas eval_config = compiled_fields try_config_def collect_def answer_plugin_def
  serve_chain_def with_view_def ClientWrite_def RcodeServerFailure_def RcodeRefused_def
  RcodeFormatError_def RcodeNotImplemented_def zone_site_def blank_site_def

subsection \<open>Configs without a chain\<close>



text \<open>C2, as the code has it: when the suffix walk reaches a Config without a chain, that
  is, when every Config it meets before (under longer suffixes, or earlier in the same
  list) has a chain and lets the walk go on, \<^verbatim>\<open>ServeDNS\<close> answers \<^verbatim>\<open>REFUSED\<close> at once and
  returns: no chain is called, and the Configs after it, the shorter suffixes, the DS
  handler and the wildcard match play no part.\<close>

theorem nil_chain_reached_refused:
  assumes "Question r = q0 # qs" and "classChaos s \<or> Qclass q0 = ClassINET"
    and "edns_Version r = None"
    and "walk_configs s (ToLower (Name_q q0)) = pre @ h # post"
    and "\<forall>h'\<in>set pre. has_chain h'" and "walk_past r q0 pre c"
    and "pluginChain h = None"
  shows "ServeDNS s c (Some r) = refused"
proof -
  from zone_loop_walk_past [OF assms(6,5)] obtain st
    where pre: "zone_loop r q0 pre (c, None) = Inr st" by blast
  have "zone_loop r q0 (pre @ h # post) (c, None) = Inl refused"
    using pre assms(7) by (simp add: zone_loop_append zone_step_nil_chain)
  then have "mux s c r q0 = refused"
    using assms(4) by (simp add: mux_flat)
  then show ?thesis
    using ServeDNS_admitted [OF assms(1-3)] by (simp add: refused_def recover_returned)
qed

theorem nil_chain_reached_refused_witness:
  "ServeDNS (NewServer ''dns://:53'' (view_then_ownerless False))
     (seed_context (NewServer ''dns://:53'' (view_then_ownerless False)))
     (Some (query ''example.com.'' TypeA ClassINET)) = ([ErrorAndMetrics RcodeRefused], None)"
proof -
  let ?s = "NewServer ''dns://:53'' (view_then_ownerless False)"
  let ?q0 = "\<lparr>Name_q = ''example.com.'', Qtype = TypeA, Qclass = ClassINET\<rparr>"
  let ?r = "query ''example.com.'' TypeA ClassINET"
  have q: "Question ?r = ?q0 # []"
    by (simp add: query_def)
  have cl: "classChaos ?s \<or> Qclass ?q0 = ClassINET" by simp
  have ed: "edns_Version ?r = None"
    by (simp add: edns_Version_def query_def)
  have w: "walk_configs ?s (ToLower (Name_q ?q0))
      = [compiled (view_site False)] @ compiled (zone_site ''example.com.'' []) # []"
    by (simp add: ToLower_def toLower_char_def walk_configs_def walk_configs_from_def eval_walk
        eval_server view_then_ownerless_def view_site_def)
  have nil: "pluginChain (compiled (zone_site ''example.com.'' [])) = None"
    by (simp add: eval_config)
  have pre: "\<forall>h'\<in>set [compiled (view_site False)]. has_chain h'"
    by (simp add: has_chain_def view_site_def eval_config)
  have past: "walk_past ?r ?q0 [compiled (view_site False)] (seed_context ?s)"
    by (simp add: walk_past_def TypeA_def TypeDS_def view_site_def eval_config)
  show ?thesis
    using nil_chain_reached_refused [OF q cl ed w pre past nil]
    by (simp add: refused_def errorAndMetricsFunc_def)
qed

text \<open>C2 as stated (a Config without a chain anywhere in the list of a zone the walk
  reaches) fails: when a Config with a view stands before it in the list and its filters
  pass, a query of another type than DS is dispatched to that Config's chain.\<close>

theorem nil_chain_in_list_counterexample:
  "map has_chain (zone_configs (NewServer ''dns://:53'' (view_then_ownerless True)) ''example.com.'')
     = [True, False] \<and>
   ServeDNS (NewServer ''dns://:53'' (view_then_ownerless True))
     (seed_context (NewServer ''dns://:53'' (view_then_ownerless True)))
     (Some (query ''example.com.'' TypeA ClassINET))
   \<noteq> ([ErrorAndMetrics RcodeRefused], None)"
proof -
  let ?s = "NewServer ''dns://:53'' (view_then_ownerless True)"
  let ?q0 = "\<lparr>Name_q = ''example.com.'', Qtype = TypeA, Qclass = ClassINET\<rparr>"
  let ?r = "query ''example.com.'' TypeA ClassINET"
  have z: "zone_configs ?s ''example.com.''
      = [compiled (view_site True), compiled (zone_site ''example.com.'' [])]"
    by (simp add: eval_server view_then_ownerless_def view_site_def)
  have hc: "map has_chain (zone_configs ?s ''example.com.'') = [True, False]"
    unfolding z by (simp add: has_chain_def view_site_def eval_config)
  have w: "walk_configs ?s (ToLower (Name_q ?q0))
      = [compiled (view_site True), compiled (zone_site ''example.com.'' [])]"
    by (simp add: ToLower_def toLower_char_def walk_configs_def walk_configs_from_def eval_walk
        eval_server view_then_ownerless_def view_site_def)
  have "mux ?s (seed_context ?s) ?r ?q0
      = ([ChainServeDNS (compiled (view_site True))
            ((seed_context ?s)\<lparr>ViewKey := Some ''internal''\<rparr>)], None)"
    unfolding mux_flat w
    by (simp add: zone_step_def view_site_def eval_config TypeA_def TypeDS_def)
  moreover have "ServeDNS ?s (seed_context ?s) (Some ?r)
      = (if \<not> debug ?s then recover ?s (mux ?s (seed_context ?s) ?r ?q0)
         else mux ?s (seed_context ?s) ?r ?q0)"
    by (rule ServeDNS_admitted [where qs = "[]"]) (simp_all add: query_def edns_Version_def)
  ultimately have "ServeDNS ?s (seed_context ?s) (Some ?r)
      = ([ChainServeDNS (compiled (view_site True))
            ((seed_context ?s)\<lparr>ViewKey := Some ''internal''\<rparr>)], None)"
    by (simp add: recover_returned)
  with hc show ?thesis by simp
qed

subsection \<open>The class check\<close>

lemma ServeDNS_question:
  "Question r = q0 # qs \<Longrightarrow>
     ServeDNS s c (Some r) = (if \<not> debug s then recover s (guarded s c r q0) else guarded s c r q0)"
  by (simp add: ServeDNS_def)

text \<open>C7, as the code has it: for a request whose first question is not of the Internet
  class, on a server built by \<^verbatim>\<open>NewServer\<close>: \<^verbatim>\<open>classChaos\<close> is true exactly when some link
  of some site of the address has a name of \<^verbatim>\<open>EnableChaos\<close>; when none has,
  \<^verbatim>\<open>ServeDNS\<close> answers \<^verbatim>\<open>REFUSED\<close> at the class check; when one has, whatever its zone,
  the request goes on to the EDNS version check and the multiplexer like any other. (There
  it can still be answered \<^verbatim>\<open>REFUSED\<close>.)\<close>

theorem class_check_chaos:
  assumes "Question r = q0 # qs" and "Qclass q0 \<noteq> ClassINET"
  shows "classChaos (NewServer addr sites) = chaos_present sites \<and>
         (\<not> chaos_present sites \<longrightarrow> ServeDNS (NewServer addr sites) c (Some r) = refused) \<and>
         (chaos_present sites \<longrightarrow>
            ServeDNS (NewServer addr sites) c (Some r) =
              (if \<not> debug (NewServer addr sites)
               then recover (NewServer addr sites) (admitted (NewServer addr sites) c r q0)
               else admitted (NewServer addr sites) c r q0))"
  using assms
  by (simp add: ServeDNS_question guarded_def NewServer_classChaos refused_def recover_returned)

theorem class_check_chaos_witness:
  "\<not> chaos_present (view_then_ownerless True) \<and>
   ServeDNS (NewServer ''dns://:53'' (view_then_ownerless True)) \<lparr>ServerKey = None, LoopKey = None, ViewKey = None, metadata = []\<rparr>
      (Some (query ''example.com.'' TypeA ClassCHAOS)) = ([ErrorAndMetrics RcodeRefused], None) \<and>
   chaos_present chaos_elsewhere \<and> classChaos (NewServer ''dns://:53'' chaos_elsewhere) \<and>
   ServeDNS (NewServer ''dns://:53'' chaos_elsewhere) \<lparr>ServerKey = None, LoopKey = None, ViewKey = None, metadata = []\<rparr>
      (Some (query ''example.org.'' TypeA ClassCHAOS))
     = ([ChainServeDNS (compiled (chaos_elsewhere ! 0)) \<lparr>ServerKey = None, LoopKey = None, ViewKey = None, metadata = []\<rparr>], None)"
proof -
  let ?c = "\<lparr>ServerKey = None, LoopKey = None, ViewKey = None, metadata = []\<rparr>"
  let ?s = "NewServer ''dns://:53'' chaos_elsewhere"
  let ?q0 = "\<lparr>Name_q = ''example.org.'', Qtype = TypeA, Qclass = ClassCHAOS\<rparr>"
  let ?r = "query ''example.org.'' TypeA ClassCHAOS"
  have no: "\<not> chaos_present (view_then_ownerless True)"
    by (simp add: chaos_present_def chaos_site_def view_then_ownerless_def view_site_def
        zone_site_def blank_site_def answer_plugin_def EnableChaos_def)
  have yes: "chaos_present chaos_elsewhere"
    by (simp add: chaos_present_def chaos_site_def chaos_elsewhere_def
        zone_site_def blank_site_def answer_plugin_def EnableChaos_def)
  have w: "walk_configs ?s (ToLower (Name_q ?q0)) = [compiled (chaos_elsewhere ! 0)]"
    by (simp add: ToLower_def toLower_char_def walk_configs_def walk_configs_from_def eval_walk
        eval_server chaos_elsewhere_def)
  have m: "mux ?s ?c ?r ?q0 = ([ChainServeDNS (compiled (chaos_elsewhere ! 0)) ?c], None)"
    unfolding mux_flat w
    by (simp add: zone_step_def chaos_elsewhere_def eval_config TypeA_def TypeDS_def)
  have d: "\<not> debug ?s"
    by (simp add: NewServer_def add_site_zones init_server_def chaos_elsewhere_def zone_site_def
        blank_site_def)
  have a: "admitted ?s ?c ?r ?q0 = ([ChainServeDNS (compiled (chaos_elsewhere ! 0)) ?c], None)"
    using m by (simp add: admitted_def edns_Version_def query_def)
  show ?thesis
    using class_check_chaos [of "query ''example.com.'' TypeA ClassCHAOS"
        "\<lparr>Name_q = ''example.com.'', Qtype = TypeA, Qclass = ClassCHAOS\<rparr>" "[]"
        "''dns://:53''" "view_then_ownerless True" ?c]
      class_check_chaos [of ?r ?q0 "[]" "''dns://:53''" chaos_elsewhere ?c]
      no yes a d
    by (simp add: query_def ClassCHAOS_def ClassINET_def refused_def errorAndMetricsFunc_def
        recover_returned)
qed

text \<open>C7 as stated (\<^verbatim>\<open>REFUSED\<close> if and only if no chaos-enabling plugin is present)
  fails in the direction "only if": with the chaos plugin loaded for example.org., a CHAOS
  query for other.net. passes the class check and is answered \<^verbatim>\<open>REFUSED\<close> at the end,
  since no zone matches.\<close>

theorem class_check_iff_counterexample:
  "chaos_present chaos_elsewhere \<and>
   Qclass (hd (Question (query ''other.net.'' TypeA ClassCHAOS))) \<noteq> ClassINET \<and>
   ServeDNS (NewServer ''dns://:53'' chaos_elsewhere) (seed_context (NewServer ''dns://:53'' chaos_elsewhere))
      (Some (query ''other.net.'' TypeA ClassCHAOS)) = ([ErrorAndMetrics RcodeRefused], None)"
proof -
  let ?s = "NewServer ''dns://:53'' chaos_elsewhere"
  let ?q0 = "\<lparr>Name_q = ''other.net.'', Qtype = TypeA, Qclass = ClassCHAOS\<rparr>"
  let ?r = "query ''other.net.'' TypeA ClassCHAOS"
  have yes: "chaos_present chaos_elsewhere"
    by (simp add: chaos_present_def chaos_site_def chaos_elsewhere_def
        zone_site_def blank_site_def answer_plugin_def EnableChaos_def)
  have w: "walk_configs ?s (ToLower (Name_q ?q0)) = []"
    by (simp add: ToLower_def toLower_char_def walk_configs_def walk_configs_from_def eval_walk
        eval_server chaos_elsewhere_def)
  have z: "zones ?s ''.'' = None"
    by (simp add: eval_server chaos_elsewhere_def)
  have m: "mux ?s (seed_context ?s) ?r ?q0 = ([ErrorAndMetrics RcodeRefused], None)"
    unfolding mux_flat w
    by (simp add: after_walk_no_ds wildcard_def z errorAndMetricsFunc_def)
  have "ServeDNS ?s (seed_context ?s) (Some ?r)
      = (if \<not> debug ?s then recover ?s (mux ?s (seed_context ?s) ?r ?q0)
         else mux ?s (seed_context ?s) ?r ?q0)"
    by (rule ServeDNS_admitted [where qs = "[]"])
      (simp_all add: query_def edns_Version_def NewServer_classChaos yes)
  with m yes show ?thesis
    by (simp add: recover_returned query_def ClassCHAOS_def ClassINET_def)
qed

subsection \<open>Panics\<close>

text \<open>When a panic ends the guarded part of \<^verbatim>\<open>ServeDNS\<close>, nothing was answered or counted
  before it: the panic comes from a collector, a filter or a chain, and \<^verbatim>\<open>ServeDNS\<close>
  answers only when it returns.\<close>

lemma responses_append: "responses (xs @ ys) = responses xs @ responses ys"
  by (induction xs rule: responses.induct) simp_all

lemma panics_counted_append:
  "panics_counted (xs @ ys) = panics_counted xs + panics_counted ys"
  by (induction xs rule: panics_counted.induct) simp_all

lemma serve_chain_panic: "serve_chain h chain c r = (evs, Some p) \<Longrightarrow> quiet evs"
  by (auto simp: serve_chain_def quiet_def split: sum.splits)

lemma zone_step_panic: "zone_step r q0 h st = Inl (evs, Some p) \<Longrightarrow> quiet evs"
  by (cases st)
    (auto simp: zone_step_def errorAndMetricsFunc_def quiet_def
      split: option.splits sum.splits prod.splits if_splits dest: serve_chain_panic)

lemma zone_loop_panic: "zone_loop r q0 hs st = Inl (evs, Some p) \<Longrightarrow> quiet evs"
proof (induction hs arbitrary: st)
  case Nil
  then show ?case by simp
next
  case (Cons h hs)
  show ?case
  proof (cases "zone_step r q0 h st")
    case (Inl e)
    with Cons.prems have "zone_step r q0 h st = Inl (evs, Some p)" by simp
    then show ?thesis by (rule zone_step_panic)
  next
    case (Inr st')
    with Cons.prems have "zone_loop r q0 hs st' = Inl (evs, Some p)" by simp
    then show ?thesis by (rule Cons.IH)
  qed
qed

lemma wildcard_loop_panic: "wildcard_loop r hs c = Inl (evs, Some p) \<Longrightarrow> quiet evs"
proof (induction hs arbitrary: c)
  case Nil
  then show ?case by simp
next
  case (Cons h hs)
  show ?case
  proof (cases "pluginChain h")
    case None
    with Cons.prems Cons.IH show ?thesis by simp
  next
    case (Some chain)
    show ?thesis
    proof (cases "try_config r h c")
      case (Inl p')
      with Some Cons.prems show ?thesis by (simp add: quiet_def)
    next
      case (Inr b)
      obtain pass c1 where b: "b = (pass, c1)" by (cases b) auto
      show ?thesis
      proof (cases pass)
        case True
        with Some Inr b Cons.prems have "serve_chain h chain (with_view h c1) r = (evs, Some p)"
          by simp
        then show ?thesis by (rule serve_chain_panic)
      next
        case False
        with Some Inr b Cons.prems have "wildcard_loop r hs c1 = Inl (evs, Some p)" by simp
        then show ?thesis by (rule Cons.IH)
      qed
    qed
  qed
qed

lemma wildcard_panic: "wildcard s r c = (evs, Some p) \<Longrightarrow> quiet evs"
  by (auto simp: wildcard_def errorAndMetricsFunc_def
      split: option.splits sum.splits dest: wildcard_loop_panic)

lemma after_walk_panic: "after_walk s r q0 st = (evs, Some p) \<Longrightarrow> quiet evs"
  by (cases st)
    (auto simp: after_walk_def split: option.splits if_splits
      dest: serve_chain_panic wildcard_panic)

lemma mux_panic: "mux s c r q0 = (evs, Some p) \<Longrightarrow> quiet evs"
  by (auto simp: mux_flat split: sum.splits dest: zone_loop_panic after_walk_panic)

lemma guarded_panic: "guarded s c r q0 = (evs, Some p) \<Longrightarrow> quiet evs"
  by (auto simp: guarded_def admitted_def errorAndMetricsFunc_def
      split: if_splits option.splits dest: mux_panic)

text \<open>C3: when a panic \<open>p\<close> is raised after the check of the question section, then outside
  debug mode \<^verbatim>\<open>ServeDNS\<close> returns normally (the panic does not leave it, so the process
  goes on), after one log line, exactly one increment of the panic counter and exactly one
  response, with \<^verbatim>\<open>SERVFAIL\<close>; in debug mode nothing is deferred and the panic leaves
  \<^verbatim>\<open>ServeDNS\<close>.\<close>

theorem panic_recovered:
  assumes "Question r = q0 # qs" and "guarded s c r q0 = (evs, Some p)"
  shows "(\<not> debug s \<longrightarrow>
            ServeDNS s c (Some r)
              = (evs @ [LogPanic (stacktrace s), PanicInc, ErrorAndMetrics RcodeServerFailure], None) \<and>
            panics_counted (fst (ServeDNS s c (Some r))) = 1 \<and>
            responses (fst (ServeDNS s c (Some r))) = [RcodeServerFailure]) \<and>
         (debug s \<longrightarrow> ServeDNS s c (Some r) = (evs, Some p))"
proof -
  from guarded_panic [OF assms(2)] have q: "responses evs = []" "panics_counted evs = 0"
    by (simp_all add: quiet_def)
  show ?thesis
    using assms q
    by (simp add: ServeDNS_question recover_def errorAndMetricsFunc_def responses_append
        panics_counted_append)
qed

theorem panic_recovered_witness:
  "ServeDNS (NewServer ''dns://:53'' (crashing False)) (seed_context (NewServer ''dns://:53'' (crashing False)))
      (Some (query ''example.com.'' TypeA ClassINET))
     = ([ChainServeDNS (compiled (crashing False ! 0)) (seed_context (NewServer ''dns://:53'' (crashing False))),
         LogPanic False, PanicInc, ErrorAndMetrics RcodeServerFailure], None) \<and>
   ServeDNS (NewServer ''dns://:53'' (crashing True)) (seed_context (NewServer ''dns://:53'' (crashing True)))
      (Some (query ''example.com.'' TypeA ClassINET))
     = ([ChainServeDNS (compiled (crashing True ! 0)) (seed_context (NewServer ''dns://:53'' (crashing True)))],
        Some (Panic ''nil pointer dereference''))"
proof -
  let ?q0 = "\<lparr>Name_q = ''example.com.'', Qtype = TypeA, Qclass = ClassINET\<rparr>"
  let ?r = "query ''example.com.'' TypeA ClassINET"
  have g: "guarded (NewServer ''dns://:53'' (crashing dbg)) (seed_context (NewServer ''dns://:53'' (crashing dbg))) ?r ?q0
      = ([ChainServeDNS (compiled (crashing dbg ! 0)) (seed_context (NewServer ''dns://:53'' (crashing dbg)))],
         Some (Panic ''nil pointer dereference''))" for dbg
  proof -
    let ?s = "NewServer ''dns://:53'' (crashing dbg)"
    have w: "walk_configs ?s (ToLower (Name_q ?q0)) = [compiled (crashing dbg ! 0)]"
      by (simp add: ToLower_def toLower_char_def walk_configs_def walk_configs_from_def
          eval_walk eval_server crashing_def)
    have "mux ?s (seed_context ?s) ?r ?q0
        = ([ChainServeDNS (compiled (crashing dbg ! 0)) (seed_context ?s)],
           Some (Panic ''nil pointer dereference''))"
      unfolding mux_flat w
      by (simp add: zone_step_def crashing_def eval_config panic_plugin_def TypeA_def TypeDS_def)
    then show ?thesis
      by (simp add: guarded_def admitted_def edns_Version_def query_def)
  qed
  have d: "debug (NewServer ''dns://:53'' (crashing dbg)) = dbg"
    "stacktrace (NewServer ''dns://:53'' (crashing dbg)) = False" for dbg
    by (simp_all add: NewServer_def add_site_zones init_server_def crashing_def zone_site_def
        blank_site_def)
  have q: "Question ?r = ?q0 # []" by (simp add: query_def)
  show ?thesis
    using panic_recovered [OF q g [of False]] panic_recovered [OF q g [of True]] d
    by simp
qed

subsection \<open>Which Config is dispatched\<close>

text \<open>The walk visits growing offsets, that is, ever shorter suffixes of the name.\<close>

lemma walk_offsets_lower: "i \<in> set (walk_offsets q off) \<Longrightarrow> off \<le> i"
proof (induction q off rule: walk_offsets.induct)
  case (1 q off)
  obtain off' fin where nl: "NextLabel q off = (off', fin)" by (cases "NextLabel q off") auto
  show ?case
  proof (cases fin)
    case True
    with "1.prems" nl show ?thesis by (simp add: walk_offsets.simps [of q off])
  next
    case False
    with nl NextLabel_bounds [of q off off'] have lt: "off < off'" by simp
    from "1.prems" nl False have "i = off \<or> i \<in> set (walk_offsets q off')"
      by (simp add: walk_offsets.simps [of q off])
    then show ?thesis
    proof
      assume "i = off"
      then show ?thesis by simp
    next
      assume "i \<in> set (walk_offsets q off')"
      with "1.IH" [OF nl [symmetric] False] have "off' \<le> i" by simp
      with lt show ?thesis by simp
    qed
  qed
qed

lemma walk_offsets_increasing: "sorted_wrt (<) (walk_offsets q off)"
proof (induction q off rule: walk_offsets.induct)
  case (1 q off)
  obtain off' fin where nl: "NextLabel q off = (off', fin)" by (cases "NextLabel q off") auto
  show ?case
  proof (cases fin)
    case True
    with nl show ?thesis by (simp add: walk_offsets.simps [of q off])
  next
    case False
    with nl NextLabel_bounds [of q off off'] have lt: "off < off'" by simp
    have "sorted_wrt (<) (walk_offsets q off')"
      using "1.IH" [OF nl [symmetric] False] by simp
    moreover have "\<forall>i\<in>set (walk_offsets q off'). off < i"
      using walk_offsets_lower [of _ q off'] lt by fastforce
    ultimately show ?thesis
      using nl False by (simp add: walk_offsets.simps [of q off])
  qed
qed

lemma rejects_append:
  "rejects r (xs @ ys) c = Some c' \<longleftrightarrow>
     (\<exists>cm. rejects r xs c = Some cm \<and> rejects r ys cm = Some c')"
  by (induction xs arbitrary: c) (auto split: sum.splits prod.splits bool.splits)

lemma after_walk_wildcard:
  "Qtype q0 \<noteq> TypeDS \<or> ds = None \<Longrightarrow>
     after_walk s r q0 (c, ds) =
       (case wildcard_loop r (filter has_chain (zone_configs s ''.'')) c of
          Inl e \<Rightarrow> e
        | Inr c' \<Rightarrow> refused)"
  using wildcard_loop_has_chain [of r _ c]
  by (auto simp: after_walk_no_ds wildcard_def zone_configs_def refused_def
      split: option.splits sum.splits)

lemma mux_first_in_walk:
  assumes "Qtype q0 \<noteq> TypeDS" and "walk_configs s (ToLower (Name_q q0)) = pre @ h # post"
    and "\<forall>h'\<in>set pre. has_chain h'" and "rejects r pre c = Some c'"
    and "pluginChain h = Some chain" and "accepts r h c' = Some c1"
  shows "mux s c r q0 = serve_chain h chain (with_view h c1) r"
proof -
  have "zone_loop r q0 (pre @ h # post) (c, None) = Inl (serve_chain h chain (with_view h c1) r)"
    using zone_loop_rejects [OF assms(4,3), of q0 None] zone_step_accepts [OF assms(6,5), of q0 None]
      assms(1)
    by (simp add: zone_loop_append)
  then show ?thesis
    using assms(2) by (simp add: mux_flat)
qed

lemma mux_first_in_wildcard:
  assumes "Qtype q0 \<noteq> TypeDS" and "pre = walk_configs s (ToLower (Name_q q0)) @ us"
    and "filter has_chain (zone_configs s ''.'') = us @ h # post"
    and "\<forall>h'\<in>set pre. has_chain h'" and "rejects r pre c = Some c'"
    and "pluginChain h = Some chain" and "accepts r h c' = Some c1"
  shows "mux s c r q0 = serve_chain h chain (with_view h c1) r"
proof -
  let ?W = "walk_configs s (ToLower (Name_q q0))"
  from assms(2,5) obtain cm where w: "rejects r ?W c = Some cm" and u: "rejects r us cm = Some c'"
    by (auto simp: rejects_append)
  from assms(2,4) have cw: "\<forall>h'\<in>set ?W. has_chain h'" and cu: "\<forall>h'\<in>set us. has_chain h'"
    by auto
  have "zone_loop r q0 ?W (c, None) = Inr (cm, None)"
    by (rule zone_loop_rejects [OF w cw])
  then have "mux s c r q0 = after_walk s r q0 (cm, None)"
    by (simp add: mux_flat)
  also have "\<dots> = (case wildcard_loop r (us @ h # post) cm of Inl e \<Rightarrow> e | Inr c' \<Rightarrow> refused)"
    using assms(3) by (simp add: after_walk_wildcard)
  also have "wildcard_loop r (us @ h # post) cm = wildcard_loop r (h # post) c'"
    by (rule wildcard_loop_rejects [OF u cu])
  also have "\<dots> = Inl (serve_chain h chain (with_view h c1) r)"
    by (rule wildcard_loop_accepts [OF assms(7,6)])
  finally show ?thesis by simp
qed

lemma mux_first_candidate:
  assumes "Qtype q0 \<noteq> TypeDS" and "candidates s (ToLower (Name_q q0)) = pre @ h # post"
    and "\<forall>h'\<in>set pre. has_chain h'" and "rejects r pre c = Some c'"
    and "pluginChain h = Some chain" and "accepts r h c' = Some c1"
  shows "mux s c r q0 = serve_chain h chain (with_view h c1) r"
proof -
  let ?W = "walk_configs s (ToLower (Name_q q0))"
  let ?R = "filter has_chain (zone_configs s ''.'')"
  from assms(2) have "?W @ ?R = pre @ h # post" by (simp add: candidates_def)
  then obtain us where "(?W = pre @ us \<and> us @ ?R = h # post) \<or> (?W @ us = pre \<and> ?R = us @ h # post)"
    by (auto simp: append_eq_append_conv2)
  then consider (walk) post1 where "?W = pre @ h # post1"
    | (wild) us' where "pre = ?W @ us'" "?R = us' @ h # post"
  proof
    assume a: "?W = pre @ us \<and> us @ ?R = h # post"
    show ?thesis
    proof (cases us)
      case Nil
      with a have "pre = ?W @ []" "?R = [] @ h # post" by simp_all
      then show ?thesis by (rule that(2))
    next
      case (Cons u us1)
      with a have "?W = pre @ h # us1" by simp
      then show ?thesis by (rule that(1))
    qed
  next
    assume "?W @ us = pre \<and> ?R = us @ h # post"
    then have "pre = ?W @ us" "?R = us @ h # post" by simp_all
    then show ?thesis by (rule that(2))
  qed
  then show ?thesis
  proof cases
    case walk
    from mux_first_in_walk [OF assms(1) walk assms(3-6)] show ?thesis .
  next
    case wild
    from mux_first_in_wildcard [OF assms(1) wild assms(3-6)] show ?thesis .
  qed
qed

lemma mux_last_in_walk:
  assumes "Qtype q0 = TypeDS" and "walk_configs s (ToLower (Name_q q0)) = pre @ h # post"
    and "\<forall>h'\<in>set (pre @ post). has_chain h'" and "ds_scan r pre c = Some c'"
    and "pluginChain h = Some chain" and "accepts r h c' = Some c1"
    and "rejects r post (with_view h c1) = Some c2"
  shows "mux s c r q0 = serve_chain h chain c2 r"
proof -
  from assms(3) have cp: "\<forall>h'\<in>set pre. has_chain h'" and cq: "\<forall>h'\<in>set post. has_chain h'"
    by auto
  from zone_loop_ds_scan [OF assms(1,4) cp, of None]
  obtain ds' where p: "zone_loop r q0 pre (c, None) = Inr (c', ds')" by blast
  have "zone_loop r q0 (pre @ h # post) (c, None) = Inr (c2, Some h)"
    using p zone_step_accepts [OF assms(6,5), of q0 ds'] assms(1)
      zone_loop_rejects [OF assms(7) cq, of q0 "Some h"]
    by (simp add: zone_loop_append)
  then show ?thesis
    using assms(2) after_walk_ds [OF assms(1,5)] by (simp add: mux_flat)
qed

text \<open>C1, as the code has it: for a request with a question that passes the class check
  and the EDNS version check. When the type is not DS, \<^verbatim>\<open>ServeDNS\<close> dispatches to the first
  Config, in the order of the walk (longest suffix first, registration order under one
  suffix, the root zone last, through the wildcard match), whose filters all pass: the
  Configs \<open>pre\<close> before it have a chain and fail a filter. When the type is DS, it
  dispatches after the walk to the last Config of the walk whose filters pass, the one
  under the shortest suffix that the walk visits: the Configs \<open>post\<close> after it in the walk
  fail a filter (those before it may pass or fail), and every Config of the walk has a
  chain. The walk ends at the last label of the name and does not visit the root zone
  (unless the name is the root), so a root Config is no DS match of the walk, whether its
  filters pass or not. The dispatch is the call of the Config's chain, under the recovery
  unless the server is in debug mode.\<close>

theorem dispatch_selection:
  assumes "Question r = q0 # qs" and "classChaos s \<or> Qclass q0 = ClassINET"
    and "edns_Version r = None"
    and "pluginChain h = Some chain" and "accepts r h c' = Some c1"
  shows "(Qtype q0 \<noteq> TypeDS \<and> candidates s (ToLower (Name_q q0)) = pre @ h # post \<and>
          (\<forall>h'\<in>set pre. has_chain h') \<and> rejects r pre c = Some c' \<longrightarrow>
            ServeDNS s c (Some r) =
              (if \<not> debug s then recover s (serve_chain h chain (with_view h c1) r)
               else serve_chain h chain (with_view h c1) r)) \<and>
         (Qtype q0 = TypeDS \<and> walk_configs s (ToLower (Name_q q0)) = pre @ h # post \<and>
          (\<forall>h'\<in>set (pre @ post). has_chain h') \<and> ds_scan r pre c = Some c' \<and>
          rejects r post (with_view h c1) = Some c2 \<longrightarrow>
            ServeDNS s c (Some r) =
              (if \<not> debug s then recover s (serve_chain h chain c2 r)
               else serve_chain h chain c2 r))"
proof (intro conjI impI)
  assume a: "Qtype q0 \<noteq> TypeDS \<and> candidates s (ToLower (Name_q q0)) = pre @ h # post \<and>
          (\<forall>h'\<in>set pre. has_chain h') \<and> rejects r pre c = Some c'"
  then have "mux s c r q0 = serve_chain h chain (with_view h c1) r"
    using mux_first_candidate [of q0 s pre h post r c c' chain c1] assms(4,5) by blast
  then show "ServeDNS s c (Some r) =
              (if \<not> debug s then recover s (serve_chain h chain (with_view h c1) r)
               else serve_chain h chain (with_view h c1) r)"
    by (simp add: ServeDNS_admitted [OF assms(1-3)])
next
  assume a: "Qtype q0 = TypeDS \<and> walk_configs s (ToLower (Name_q q0)) = pre @ h # post \<and>
          (\<forall>h'\<in>set (pre @ post). has_chain h') \<and> ds_scan r pre c = Some c' \<and>
          rejects r post (with_view h c1) = Some c2"
  then have "mux s c r q0 = serve_chain h chain c2 r"
    using mux_last_in_walk [of q0 s pre h post r c c' chain c1 c2] assms(4,5) by blast
  then show "ServeDNS s c (Some r) =
              (if \<not> debug s then recover s (serve_chain h chain c2 r)
               else serve_chain h chain c2 r)"
    by (simp add: ServeDNS_admitted [OF assms(1-3)])
qed


theorem dispatch_selection_witness:
  "ServeDNS (NewServer ''dns://:53'' (delegation False)) (seed_context (NewServer ''dns://:53'' (delegation False)))
      (Some (query ''WWW.Example.COM.'' TypeA ClassINET))
     = ([ChainServeDNS (compiled (zone_site ''com.'' [answer_plugin ''file'' 0]))
           (seed_context (NewServer ''dns://:53'' (delegation False)))], None) \<and>
   ServeDNS (NewServer ''dns://:53'' (delegation True)) (seed_context (NewServer ''dns://:53'' (delegation True)))
      (Some (query ''example.com.'' TypeDS ClassINET))
     = ([ChainServeDNS (compiled (zone_site ''com.'' [answer_plugin ''file'' 0]))
           ((seed_context (NewServer ''dns://:53'' (delegation True)))\<lparr>ViewKey := Some ''internal''\<rparr>)], None) \<and>
   ServeDNS (NewServer ''dns://:53'' (delegation True)) (seed_context (NewServer ''dns://:53'' (delegation True)))
      (Some (query ''other.net.'' TypeA ClassINET))
     = ([ChainServeDNS (compiled (zone_site ''.'' [answer_plugin ''hosts'' 0]))
           (seed_context (NewServer ''dns://:53'' (delegation True)))], None)"
proof -
  let ?A = "\<lambda>pass. compiled (view_site pass)"
  let ?C = "compiled (zone_site ''com.'' [answer_plugin ''file'' 0])"
  let ?B = "compiled (zone_site ''.'' [answer_plugin ''hosts'' 0])"
  let ?s = "\<lambda>pass. NewServer ''dns://:53'' (delegation pass)"
  have lower: "ToLower ''WWW.Example.COM.'' = ''www.example.com.''"
    by code_simp
  have walk_www: "walk_configs (?s pass) ''www.example.com.'' = [?A pass, ?C]" for pass
    by (simp add: walk_configs_def walk_configs_from_def eval_walk eval_server delegation_def
        view_site_def)
  have walk_ex: "walk_configs (?s pass) ''example.com.'' = [?A pass, ?C]" for pass
    by (simp add: walk_configs_def walk_configs_from_def eval_walk eval_server delegation_def
        view_site_def)
  have walk_other: "walk_configs (?s pass) ''other.net.'' = []" for pass
    by (simp add: walk_configs_def walk_configs_from_def eval_walk eval_server delegation_def
        view_site_def)
  have root: "zone_configs (?s pass) ''.'' = [?B]" for pass
    by (simp add: eval_server delegation_def view_site_def)
  have chains: "pluginChain ?C = Some (answer_plugin ''file'' 0 None)"
    "pluginChain ?B = Some (answer_plugin ''hosts'' 0 None)"
    "has_chain (?A pass)" "has_chain ?B" for pass
    by (simp_all add: has_chain_def view_site_def eval_config)
  have acc: "accepts r ?C c = Some c" "accepts r ?B c = Some c" for r c
    by (simp_all add: accepts_def eval_config)
  have tryA: "rejects r [?A False] c = Some c"
    "ds_scan r [?A True] c = Some (c\<lparr>ViewKey := Some ''internal''\<rparr>)" for r c
    by (simp_all add: view_site_def eval_config)
  have served: "serve_chain ?C (answer_plugin ''file'' 0 None) c r = ([ChainServeDNS ?C c], None)"
    "serve_chain ?B (answer_plugin ''hosts'' 0 None) c r = ([ChainServeDNS ?B c], None)" for r c
    by (simp_all add: eval_config)
  have views: "with_view ?C c = c" "with_view ?B c = c" for c
    by (simp_all add: eval_config)
  have nodebug: "\<not> debug (?s pass)" for pass
    by (simp add: NewServer_def add_site_zones init_server_def delegation_def view_site_def
        zone_site_def blank_site_def)
  have adm: "Question (query n t ClassINET) = \<lparr>Name_q = n, Qtype = t, Qclass = ClassINET\<rparr> # []"
    "classChaos s \<or> Qclass \<lparr>Name_q = n, Qtype = t, Qclass = ClassINET\<rparr> = ClassINET"
    "edns_Version (query n t ClassINET) = None" for n t s
    by (simp_all add: query_def edns_Version_def)
  have one: "ServeDNS (?s False) (seed_context (?s False)) (Some (query ''WWW.Example.COM.'' TypeA ClassINET))
      = ([ChainServeDNS ?C (seed_context (?s False))], None)"
  proof -
    let ?q0 = "\<lparr>Name_q = ''WWW.Example.COM.'', Qtype = TypeA, Qclass = ClassINET\<rparr>"
    let ?r = "query ''WWW.Example.COM.'' TypeA ClassINET"
    let ?c = "seed_context (?s False)"
    have ante: "Qtype ?q0 \<noteq> TypeDS \<and>
        candidates (?s False) (ToLower (Name_q ?q0)) = [?A False] @ ?C # [?B] \<and>
        (\<forall>h'\<in>set [?A False]. has_chain h') \<and> rejects ?r [?A False] ?c = Some ?c"
      using tryA(1) [of ?r ?c] chains(3) [of False]
      by (simp add: candidates_def lower walk_www root chains(4) TypeA_def TypeDS_def)
    from dispatch_selection [OF adm(1) adm(2) adm(3) chains(1) acc(1),
        where pre = "[?A False]" and post = "[?B]" and c = ?c and ?c2.0 = ?c] ante
    have "ServeDNS (?s False) ?c (Some ?r) =
        (if \<not> debug (?s False)
         then recover (?s False) (serve_chain ?C (answer_plugin ''file'' 0 None) (with_view ?C ?c) ?r)
         else serve_chain ?C (answer_plugin ''file'' 0 None) (with_view ?C ?c) ?r)"
      by blast
    then show ?thesis
      by (simp add: views served recover_returned)
  qed
  have two: "ServeDNS (?s True) (seed_context (?s True)) (Some (query ''example.com.'' TypeDS ClassINET))
      = ([ChainServeDNS ?C ((seed_context (?s True))\<lparr>ViewKey := Some ''internal''\<rparr>)], None)"
  proof -
    let ?q0 = "\<lparr>Name_q = ''example.com.'', Qtype = TypeDS, Qclass = ClassINET\<rparr>"
    let ?r = "query ''example.com.'' TypeDS ClassINET"
    let ?c = "seed_context (?s True)"
    let ?cv = "?c\<lparr>ViewKey := Some ''internal''\<rparr>"
    have ante: "Qtype ?q0 = TypeDS \<and>
        walk_configs (?s True) (ToLower (Name_q ?q0)) = [?A True] @ ?C # [] \<and>
        (\<forall>h'\<in>set ([?A True] @ []). has_chain h') \<and> ds_scan ?r [?A True] ?c = Some ?cv \<and>
        rejects ?r [] (with_view ?C ?cv) = Some ?cv"
      using tryA(2) [of ?r ?c] chains(3) [of True] walk_ex [of True]
      by (simp add: ToLower_def toLower_char_def views)
    from dispatch_selection [OF adm(1) adm(2) adm(3) chains(1) acc(1),
        where pre = "[?A True]" and post = "[]" and c = ?c and ?c2.0 = ?cv and c' = ?cv] ante
    have "ServeDNS (?s True) ?c (Some ?r) =
        (if \<not> debug (?s True)
         then recover (?s True) (serve_chain ?C (answer_plugin ''file'' 0 None) ?cv ?r)
         else serve_chain ?C (answer_plugin ''file'' 0 None) ?cv ?r)"
      by blast
    then show ?thesis
      by (simp add: served recover_returned)
  qed
  have three: "ServeDNS (?s True) (seed_context (?s True)) (Some (query ''other.net.'' TypeA ClassINET))
      = ([ChainServeDNS ?B (seed_context (?s True))], None)"
  proof -
    let ?q0 = "\<lparr>Name_q = ''other.net.'', Qtype = TypeA, Qclass = ClassINET\<rparr>"
    let ?r = "query ''other.net.'' TypeA ClassINET"
    let ?c = "seed_context (?s True)"
    have ante: "Qtype ?q0 \<noteq> TypeDS \<and>
        candidates (?s True) (ToLower (Name_q ?q0)) = [] @ ?B # [] \<and>
        (\<forall>h'\<in>set []. has_chain h') \<and> rejects ?r [] ?c = Some ?c"
      using walk_other [of True]
      by (simp add: candidates_def ToLower_def toLower_char_def root chains(4) TypeA_def
          TypeDS_def)
    from dispatch_selection [OF adm(1) adm(2) adm(3) chains(2) acc(2),
        where pre = "[]" and post = "[]" and c = ?c and ?c2.0 = ?c] ante
    have "ServeDNS (?s True) ?c (Some ?r) =
        (if \<not> debug (?s True)
         then recover (?s True) (serve_chain ?B (answer_plugin ''hosts'' 0 None) (with_view ?B ?c) ?r)
         else serve_chain ?B (answer_plugin ''hosts'' 0 None) (with_view ?B ?c) ?r)"
      by blast
    then show ?thesis
      by (simp add: views served recover_returned)
  qed
  from one two three show ?thesis by simp
qed

text \<open>C1 as stated (for DS, among all passing suffix matches the one with the shortest
  suffix, closest to the root) fails when the root zone is served too: with the zones
  example.com. and the root, both with a chain and no filter, the root is a match for a
  query of another type (it is the last of the candidates), its filters pass for the DS
  query for example.com. as well, and yet that query is dispatched to the Config of
  example.com., the only one the walk recorded.\<close>

theorem ds_root_counterexample:
  "Qtype \<lparr>Name_q = ''example.com.'', Qtype = TypeDS, Qclass = ClassINET\<rparr> = TypeDS \<and>
   map Zone (candidates (NewServer ''dns://:53'' with_root) (ToLower ''example.com.''))
     = [''example.com.'', ''.''] \<and>
   has_chain (last (candidates (NewServer ''dns://:53'' with_root) (ToLower ''example.com.''))) \<and>
   accepts (query ''example.com.'' TypeDS ClassINET)
       (last (candidates (NewServer ''dns://:53'' with_root) (ToLower ''example.com.'')))
       (seed_context (NewServer ''dns://:53'' with_root))
     = Some (seed_context (NewServer ''dns://:53'' with_root)) \<and>
   ServeDNS (NewServer ''dns://:53'' with_root) (seed_context (NewServer ''dns://:53'' with_root))
       (Some (query ''example.com.'' TypeDS ClassINET))
     = ([ChainServeDNS (compiled (zone_site ''example.com.'' [answer_plugin ''whoami'' 0]))
           (seed_context (NewServer ''dns://:53'' with_root))], None) \<and>
   Zone (compiled (zone_site ''example.com.'' [answer_plugin ''whoami'' 0])) = ''example.com.''"
proof -
  let ?s = "NewServer ''dns://:53'' with_root"
  let ?E = "compiled (zone_site ''example.com.'' [answer_plugin ''whoami'' 0])"
  let ?B = "compiled (zone_site ''.'' [answer_plugin ''hosts'' 0])"
  let ?q0 = "\<lparr>Name_q = ''example.com.'', Qtype = TypeDS, Qclass = ClassINET\<rparr>"
  let ?r = "query ''example.com.'' TypeDS ClassINET"
  let ?c = "seed_context ?s"
  have lower: "ToLower ''example.com.'' = ''example.com.''"
    by (simp add: ToLower_def toLower_char_def)
  have w: "walk_configs ?s ''example.com.'' = [?E]"
    by (simp add: walk_configs_def walk_configs_from_def eval_walk eval_server with_root_def)
  have root: "zone_configs ?s ''.'' = [?B]"
    by (simp add: eval_server with_root_def)
  have chains: "pluginChain ?E = Some (answer_plugin ''whoami'' 0 None)" "has_chain ?B"
    by (simp_all add: has_chain_def eval_config)
  have cand: "candidates ?s (ToLower ''example.com.'') = [?E, ?B]"
    by (simp add: candidates_def lower w root chains(2))
  have zonesEB: "Zone ?E = ''example.com.''" "Zone ?B = ''.''"
    by (simp_all add: eval_config)
  have acc: "accepts ?r ?E ?c = Some ?c" "accepts ?r ?B ?c = Some ?c"
    by (simp_all add: accepts_def eval_config)
  have view: "with_view ?E ?c = ?c"
    by (simp add: eval_config)
  have "mux ?s ?c ?r ?q0 = serve_chain ?E (answer_plugin ''whoami'' 0 None) ?c ?r"
  proof (rule mux_last_in_walk [where pre = "[]" and post = "[]" and c' = ?c and ?c1.0 = ?c])
    show "Qtype ?q0 = TypeDS" by simp
    show "walk_configs ?s (ToLower (Name_q ?q0)) = [] @ ?E # []" by (simp add: lower w)
    show "\<forall>h'\<in>set ([] @ []). has_chain h'" by simp
    show "ds_scan ?r [] ?c = Some ?c" by simp
    show "pluginChain ?E = Some (answer_plugin ''whoami'' 0 None)" by (rule chains(1))
    show "accepts ?r ?E ?c = Some ?c" by (rule acc(1))
    show "rejects ?r [] (with_view ?E ?c) = Some ?c" by (simp add: view)
  qed
  then have m: "mux ?s ?c ?r ?q0 = ([ChainServeDNS ?E ?c], None)"
    by (simp add: eval_config)
  have "ServeDNS ?s ?c (Some ?r)
      = (if \<not> debug ?s then recover ?s (mux ?s ?c ?r ?q0) else mux ?s ?c ?r ?q0)"
    by (rule ServeDNS_admitted [where qs = "[]"]) (simp_all add: query_def edns_Version_def)
  then have served: "ServeDNS ?s ?c (Some ?r) = ([ChainServeDNS ?E ?c], None)"
    by (simp add: m recover_returned)
  show ?thesis
    unfolding cand using served zonesEB chains(2) acc(2) by simp
qed

end
